theory Spec2Isabelle
  imports Complex_Main "HOL-Library.Word"
begin

section \<open>Plainly: the page-translation pipeline\<close>

text \<open>
  A shallow embedding of the Plainly browser extension and of its serverless translation
  endpoint. The sources modelled are
  \<^item> \<^verbatim>\<open>extension/src/content/text-extractor.ts\<close> (class \<^verbatim>\<open>TextExtractor\<close>),
  \<^item> \<^verbatim>\<open>extension/src/content/content-script.ts\<close> (class \<^verbatim>\<open>PlainlyContentScript\<close>),
  \<^item> \<^verbatim>\<open>extension/src/background/service-worker.ts\<close> (\<^verbatim>\<open>getStatus\<close>),
  \<^item> \<^verbatim>\<open>extension/src/shared/constants.ts\<close> and \<^verbatim>\<open>types.ts\<close>,
  \<^item> \<^verbatim>\<open>api/translate.ts\<close> (\<^verbatim>\<open>handler\<close>).
\<close>

subsection \<open>JavaScript strings\<close>

text \<open>
  A JavaScript string is a sequence of UTF-16 code units; \<^verbatim>\<open>length\<close> counts code units
  and a regular expression without the \<^verbatim>\<open>u\<close> flag matches one code unit at a time.
\<close>

type_synonym jsstring = "16 word list"

text \<open>\<^verbatim>\<open>(text.match(/[...]/g) || []).length\<close> for a one-character class.\<close>

definition match_count :: "(16 word \<Rightarrow> bool) \<Rightarrow> jsstring \<Rightarrow> nat" where
  "match_count cls text = length (filter cls text)"

text \<open>The character classes of the regular expressions in \<^verbatim>\<open>text-extractor.ts\<close>.\<close>

definition re_hangul :: "16 word \<Rightarrow> bool" where
  \<comment> \<open>\<^verbatim>\<open>[\uAC00-\uD7A3]\<close>, written in the source with the Hangul syllables themselves\<close>
  "re_hangul c = (0xAC00 \<le> c \<and> c \<le> 0xD7A3)"

definition re_kana :: "16 word \<Rightarrow> bool" where
  \<comment> \<open>\<^verbatim>\<open>[\u3040-\u309F\u30A0-\u30FF]\<close>\<close>
  "re_kana c = ((0x3040 \<le> c \<and> c \<le> 0x309F) \<or> (0x30A0 \<le> c \<and> c \<le> 0x30FF))"

definition re_cjk :: "16 word \<Rightarrow> bool" where
  \<comment> \<open>\<^verbatim>\<open>[\u4E00-\u9FFF]\<close>\<close>
  "re_cjk c = (0x4E00 \<le> c \<and> c \<le> 0x9FFF)"

definition re_ascii_letter :: "16 word \<Rightarrow> bool" where
  \<comment> \<open>\<^verbatim>\<open>[a-zA-Z]\<close>\<close>
  "re_ascii_letter c = ((0x61 \<le> c \<and> c \<le> 0x7A) \<or> (0x41 \<le> c \<and> c \<le> 0x5A))"

definition re_latin :: "16 word \<Rightarrow> bool" where
  \<comment> \<open>\<^verbatim>\<open>[a-zA-Z\u00C0-\u00FF]\<close>, the last range written with the letters themselves\<close>
  "re_latin c = (re_ascii_letter c \<or> (0xC0 \<le> c \<and> c \<le> 0xFF))"

definition re_letter :: "16 word \<Rightarrow> bool" where
  \<comment> \<open>\<^verbatim>\<open>[a-zA-Z\uAC00-\uD7A3]\<close>, the class of \<^verbatim>\<open>isNonTranslatable\<close>\<close>
  "re_letter c = (re_ascii_letter c \<or> re_hangul c)"

subsection \<open>Language classifier (\<^verbatim>\<open>TextExtractor.detectLanguage\<close>)\<close>

datatype LanguageCode = En | Ko | Ja | Zh | Es | Fr | De

text \<open>The result type \<^verbatim>\<open>LanguageCode | 'mixed'\<close>.\<close>

datatype detected = Lang LanguageCode | Mixed

text \<open>
  The ratios are quotients of two counts, compared with the decimal literals of the
  source. They are modelled in exact arithmetic: for a string of fewer than \<open>2^49\<close> code
  units a quotient of two counts is either equal to the threshold fraction or further
  from it than the rounding of a double, so the double comparison agrees.
\<close>

definition detectLanguage :: "jsstring \<Rightarrow> detected" where
  "detectLanguage text =
    (let koreanChars = match_count re_hangul text;
         japaneseChars = match_count re_kana text;
         chineseChars = match_count re_cjk text;
         latinChars = match_count re_latin text;
         total = koreanChars + japaneseChars + chineseChars + latinChars
     in if total = 0 then Mixed
        else
          let koreanRatio = real koreanChars / real total;
              japaneseRatio = real japaneseChars / real total;
              chineseRatio = real chineseChars / real total
          in if koreanRatio > 0.6 then Lang Ko
             else if japaneseRatio > 0.3 then Lang Ja
             else if chineseRatio > 0.5 \<and> japaneseRatio < 0.1 then Lang Zh
             else if koreanRatio < 0.1 \<and> japaneseRatio < 0.1 \<and> chineseRatio < 0.1 then Lang En
             else Mixed)"

definition isSourceLanguage :: "jsstring \<Rightarrow> LanguageCode \<Rightarrow> bool" where
  "isSourceLanguage text sourceLang =
    (let detected = detectLanguage text
     in if detected = Mixed then True else detected = Lang sourceLang)"

text \<open>
  The classifier in the words of the specification: a character is classifiable when it
  belongs to one of the four script families, the ratio of a family is its share of the
  classifiable characters, and the labels are tried in the order Korean, Japanese,
  Chinese, English.
\<close>

definition classifiable :: "16 word \<Rightarrow> bool" where
  "classifiable c = (re_hangul c \<or> re_kana c \<or> re_cjk c \<or> re_latin c)"

definition script_ratio :: "(16 word \<Rightarrow> bool) \<Rightarrow> jsstring \<Rightarrow> real" where
  "script_ratio family text =
     real (length (filter family text)) / real (length (filter classifiable text))"

definition classify_spec :: "jsstring \<Rightarrow> detected" where
  "classify_spec text =
    (if filter classifiable text = [] then Mixed
     else if script_ratio re_hangul text > 0.6 then Lang Ko
     else if script_ratio re_kana text > 0.3 then Lang Ja
     else if script_ratio re_cjk text > 0.5 \<and> script_ratio re_kana text < 0.1 then Lang Zh
     else if script_ratio re_hangul text < 0.1 \<and> script_ratio re_kana text < 0.1
             \<and> script_ratio re_cjk text < 0.1 then Lang En
     else Mixed)"

subsection \<open>Constants (\<^verbatim>\<open>shared/constants.ts\<close>)\<close>

definition SKIP_TAGS :: "string set" where
  "SKIP_TAGS = {''SCRIPT'', ''STYLE'', ''NOSCRIPT'', ''IFRAME'', ''OBJECT'',
                ''EMBED'', ''SVG'', ''CANVAS'', ''VIDEO'', ''AUDIO'', ''CODE'',
                ''PRE'', ''KBD'', ''VAR'', ''SAMP'', ''TEXTAREA'', ''INPUT''}"

definition MIN_TEXT_LENGTH :: nat where "MIN_TEXT_LENGTH = 2"
definition MAX_TEXT_LENGTH :: nat where "MAX_TEXT_LENGTH = 5000"
definition MAX_TEXTS_PER_REQUEST :: nat where "MAX_TEXTS_PER_REQUEST = 8"
definition MAX_CONCURRENT_REQUESTS :: nat where "MAX_CONCURRENT_REQUESTS = 6"

subsection \<open>Text units and batches (\<^verbatim>\<open>content-script.ts\<close>)\<close>

text \<open>
  The part of a DOM element that the extension reads: its tag name, whether it is
  editable, which of the three form-control interfaces it implements, its computed style
  and its bounding rectangle.
\<close>

datatype html_interface = HTMLInputElement | HTMLTextAreaElement | HTMLSelectElement | OtherElement

record Element =
  tagName :: string
  isContentEditable :: bool
  interface :: html_interface
  style_display :: string
  style_visibility :: string
  style_opacity :: string
  rect_top :: real
  rect_bottom :: real
  rect_left :: real
  rect_right :: real
  rect_width :: real
  rect_height :: real

text \<open>
  \<^verbatim>\<open>TextNodeInfo\<close>. The field \<open>node\<close> is the identity of the \<^verbatim>\<open>Text\<close> object, which is
  what the set \<^verbatim>\<open>translatingNodes\<close> compares.
\<close>

record TextNodeInfo =
  node :: nat
  originalText :: jsstring
  parentElement :: Element

record TranslatedText =
  original :: jsstring
  translated :: jsstring

text \<open>An entry \<^verbatim>\<open>{ index, text }\<close> of the list of cache misses.\<close>

record uncached_text =
  index :: nat
  text' :: jsstring

text \<open>Reading an array at an index: \<^verbatim>\<open>undefined\<close> out of range.\<close>

definition js_index :: "'a list \<Rightarrow> nat \<Rightarrow> 'a option" where
  "js_index xs i = (if i < length xs then Some (xs ! i) else None)"

text \<open>\<^verbatim>\<open>xs.slice(i, j)\<close> for \<open>0 \<le> i \<le> j\<close>.\<close>

definition js_slice :: "'a list \<Rightarrow> nat \<Rightarrow> nat \<Rightarrow> 'a list" where
  "js_slice xs i j = take (j - i) (drop i xs)"

record batch =
  indices :: "uncached_text list"
  nodes :: "TextNodeInfo option list"

text \<open>
  The loop of \<^verbatim>\<open>translateNodesParallel\<close> that fills \<^verbatim>\<open>batches\<close>, from its index \<open>i\<close> on:
  \<^verbatim>\<open>for (let i = 0; i < uncached.length; i += MAX_TEXTS_PER_REQUEST)\<close>.
\<close>

function make_batches :: "TextNodeInfo list \<Rightarrow> uncached_text list \<Rightarrow> nat \<Rightarrow> batch list" where
  "make_batches newNodes uncached i =
    (if i < length uncached then
       (let batchIndices = js_slice uncached i (i + MAX_TEXTS_PER_REQUEST);
            batchNodes = map (\<lambda>u. js_index newNodes (index u)) batchIndices
        in \<lparr>indices = batchIndices, nodes = batchNodes\<rparr>
             # make_batches newNodes uncached (i + MAX_TEXTS_PER_REQUEST))
     else [])"
  by pat_completeness auto
termination
  by (relation "measure (\<lambda>(newNodes, uncached, i). length uncached - i)")
     (auto simp: MAX_TEXTS_PER_REQUEST_def)

declare make_batches.simps [simp del]

subsection \<open>The translation endpoint (\<^verbatim>\<open>api/translate.ts\<close>)\<close>

text \<open>
  The body of a request as the handler destructures it,
  \<^verbatim>\<open>const { texts, sourceLang, targetLang } = req.body\<close>. The cast to
  \<^verbatim>\<open>TranslationRequest\<close> checks nothing at run time, so every field may be absent:
  \<open>req_texts\<close> is \<open>None\<close> when \<^verbatim>\<open>texts\<close> is absent or not an array, a language code is
  \<open>None\<close> when it is \<^verbatim>\<open>undefined\<close> or \<^verbatim>\<open>null\<close>.
\<close>

record TranslationRequest =
  req_texts :: "jsstring list option"
  req_sourceLang :: "string option"
  req_targetLang :: "string option"

text \<open>
  \<^verbatim>\<open>VercelRequest\<close>: the method and the parsed body; \<open>body = None\<close> when \<^verbatim>\<open>req.body\<close> is
  \<^verbatim>\<open>undefined\<close> or \<^verbatim>\<open>null\<close>, where the destructuring throws a \<^verbatim>\<open>TypeError\<close>.
\<close>

record VercelRequest =
  req_method :: string
  body :: "TranslationRequest option"

text \<open>
  What the handler sends: a status and a JSON body, \<^verbatim>\<open>{ success: false, error }\<close> or
  \<^verbatim>\<open>{ success: true, data }\<close>; \<open>res_json = None\<close> for \<^verbatim>\<open>res.status(200).end()\<close>.
\<close>

datatype json_body = Failure string | Success "TranslatedText list"

record VercelResponse =
  res_status :: nat
  res_json :: "json_body option"

text \<open>
  The provider. A call is the \<^verbatim>\<open>fetch\<close> of \<^verbatim>\<open>translateWithDeepSeek\<close>; what comes back is
  the environment's choice: the request fails, the status is not \<^verbatim>\<open>ok\<close>, the first
  choice has no content, the content is not JSON, or it parses to an object whose
  \<^verbatim>\<open>translations\<close> field is a list of strings or is absent.
\<close>

record provider_call =
  call_apiKey :: string
  call_texts :: "jsstring list"
  call_sourceLang :: string
  call_targetLang :: string

datatype fetch_result =
    FetchThrows string
  | NotOk nat string
  | EmptyContent
  | JsonParseThrows string
  | Parsed "jsstring list option"

record process_env =
  DEEPSEEK_API_KEY :: "string option"
  fetch :: "provider_call \<Rightarrow> fetch_result"

definition digit :: "nat \<Rightarrow> char" where
  "digit n = ''0123456789'' ! (n mod 10)"

fun decimal :: "nat \<Rightarrow> string" where
  "decimal n = (if n < 10 then [digit n] else decimal (n div 10) @ [digit (n mod 10)])"

text \<open>
  \<^verbatim>\<open>translateWithDeepSeek\<close>: the result is the thrown error's message (\<open>Inl\<close>) or the list of
  translations, together with the provider calls that were issued.
\<close>

definition translateWithDeepSeek ::
  "process_env \<Rightarrow> jsstring list \<Rightarrow> string \<Rightarrow> string \<Rightarrow> (string + jsstring list) \<times> provider_call list" where
  "translateWithDeepSeek env texts sourceLang targetLang =
    (case DEEPSEEK_API_KEY env of
       None \<Rightarrow> (Inl ''DEEPSEEK_API_KEY is not configured'', [])
     | Some apiKey \<Rightarrow>
        if apiKey = [] then (Inl ''DEEPSEEK_API_KEY is not configured'', [])
        else
          let call = \<lparr>call_apiKey = apiKey, call_texts = texts,
                      call_sourceLang = sourceLang, call_targetLang = targetLang\<rparr>
          in (case fetch env call of
                FetchThrows msg \<Rightarrow> Inl msg
              | NotOk status errorText \<Rightarrow>
                  Inl (''DeepSeek API error: '' @ decimal status @ '' - '' @ errorText)
              | EmptyContent \<Rightarrow> Inl ''Empty response from DeepSeek''
              | JsonParseThrows msg \<Rightarrow> Inl msg
              | Parsed translations \<Rightarrow>
                  Inr (case translations of None \<Rightarrow> [] | Some ts \<Rightarrow> ts),
              [call]))"

text \<open>\<^verbatim>\<open>!code\<close> for a language code: absent or the empty string.\<close>

definition falsy :: "string option \<Rightarrow> bool" where
  "falsy code = (case code of None \<Rightarrow> True | Some c \<Rightarrow> c = [])"

definition bad_request :: "string \<Rightarrow> VercelResponse \<times> provider_call list" where
  "bad_request msg = (\<lparr>res_status = 400, res_json = Some (Failure msg)\<rparr>, [])"

text \<open>\<^verbatim>\<open>translations[index] || original\<close>: an absent or empty translation gives the original.\<close>

definition translated_or_original :: "jsstring list \<Rightarrow> jsstring \<times> nat \<Rightarrow> TranslatedText" where
  "translated_or_original translations = (\<lambda>(original, index).
     \<lparr>original = original,
      translated = (case js_index translations index of
                      None \<Rightarrow> original
                    | Some t \<Rightarrow> if t = [] then original else t)\<rparr>)"

text \<open>
  \<^verbatim>\<open>handler\<close>, with the provider calls it issued. The message of the \<^verbatim>\<open>TypeError\<close> for a
  missing body is the engine's.
\<close>

definition handler :: "process_env \<Rightarrow> VercelRequest \<Rightarrow> VercelResponse \<times> provider_call list" where
  "handler env req =
    (if req_method req = ''OPTIONS'' then (\<lparr>res_status = 200, res_json = None\<rparr>, [])
     else if req_method req \<noteq> ''POST'' then
       (\<lparr>res_status = 405, res_json = Some (Failure ''Method not allowed'')\<rparr>, [])
     else
       (case body req of
          None \<Rightarrow>
            (\<lparr>res_status = 500,
              res_json = Some (Failure ''Cannot destructure property texts of req.body'')\<rparr>, [])
        | Some b \<Rightarrow>
           (case req_texts b of
              None \<Rightarrow> bad_request ''texts array is required''
            | Some texts \<Rightarrow>
                if length texts = 0 then bad_request ''texts array is required''
                else if length texts > 50 then bad_request ''Maximum 50 texts per request''
                else if falsy (req_sourceLang b) \<or> falsy (req_targetLang b) then
                  bad_request ''sourceLang and targetLang are required''
                else
                  (case translateWithDeepSeek env texts
                          (the (req_sourceLang b)) (the (req_targetLang b)) of
                     (Inl message, calls) \<Rightarrow>
                       (\<lparr>res_status = 500, res_json = Some (Failure message)\<rparr>, calls)
                   | (Inr translations, calls) \<Rightarrow>
                       (\<lparr>res_status = 200,
                         res_json = Some (Success
                           (map (translated_or_original translations)
                                (zip texts [0..<length texts])))\<rparr>, calls)))))"

text \<open>The claims about the endpoint, as predicates on requests and responses.\<close>

definition structured_failure :: "VercelResponse \<Rightarrow> bool" where
  "structured_failure res = (case res_json res of Some (Failure msg) \<Rightarrow> True | _ \<Rightarrow> False)"

definition invalid_request :: "VercelRequest \<Rightarrow> bool" where
  "invalid_request req =
    (case body req of
       None \<Rightarrow> True
     | Some b \<Rightarrow>
        (case req_texts b of None \<Rightarrow> True | Some texts \<Rightarrow> texts = [] \<or> length texts > 50)
        \<or> req_sourceLang b = None \<or> req_targetLang b = None)"


subsection \<open>Text extraction (\<^verbatim>\<open>TextExtractor\<close>)\<close>

text \<open>
  \<^verbatim>\<open>String.prototype.trim\<close> removes the white space and line terminators of ECMAScript
  from both ends.
\<close>

definition js_whitespace :: "16 word \<Rightarrow> bool" where
  "js_whitespace c =
     (c = 0x0009 \<or> c = 0x000A \<or> c = 0x000B \<or> c = 0x000C \<or> c = 0x000D \<or> c = 0x0020
      \<or> c = 0x00A0 \<or> c = 0x1680 \<or> (0x2000 \<le> c \<and> c \<le> 0x200A) \<or> c = 0x2028
      \<or> c = 0x2029 \<or> c = 0x202F \<or> c = 0x205F \<or> c = 0x3000 \<or> c = 0xFEFF)"

definition js_trim :: "jsstring \<Rightarrow> jsstring" where
  "js_trim s = rev (dropWhile js_whitespace (rev (dropWhile js_whitespace s)))"

text \<open>
  A snapshot of a DOM subtree: a \<^verbatim>\<open>Text\<close> node with its identity and \<^verbatim>\<open>textContent\<close>, or
  an element with its child nodes and, when a shadow root is attached, the child nodes
  of the shadow root. A root handed to the extractor is an element or a shadow root.
\<close>

datatype dom_node =
    TextNode nat jsstring
  | ElementNode Element "dom_node list" "dom_node list option"

datatype dom_root =
    ElementRoot Element "dom_node list"
  | ShadowRoot "dom_node list"

datatype node_filter = FILTER_ACCEPT | FILTER_REJECT | FILTER_SKIP

definition isNonTranslatable :: "jsstring \<Rightarrow> bool" where
  "isNonTranslatable s =
    (let letterCount = match_count re_letter s
     in real letterCount / real (length s) < 0.3)"

definition isElementVisible :: "Element \<Rightarrow> bool" where
  "isElementVisible element =
    (if style_display element = ''none'' then False
     else if style_visibility element = ''hidden'' then False
     else if style_opacity element = ''0'' then False
     else if rect_width element = 0 \<and> rect_height element = 0 then False
     else True)"

text \<open>\<^verbatim>\<open>filterTextNode\<close>, given \<^verbatim>\<open>node.parentElement\<close> and \<^verbatim>\<open>node.textContent\<close>.\<close>

definition filterTextNode :: "Element option \<Rightarrow> jsstring \<Rightarrow> node_filter" where
  "filterTextNode parent textContent =
    (case parent of
       None \<Rightarrow> FILTER_REJECT
     | Some p \<Rightarrow>
        if tagName p \<in> SKIP_TAGS then FILTER_REJECT
        else if isContentEditable p then FILTER_REJECT
        else if interface p = HTMLInputElement \<or> interface p = HTMLTextAreaElement
                \<or> interface p = HTMLSelectElement then FILTER_REJECT
        else
          let trimmed = js_trim textContent
          in if trimmed = [] then FILTER_REJECT
             else if isNonTranslatable trimmed then FILTER_REJECT
             else FILTER_ACCEPT)"

text \<open>
  The body of the \<^verbatim>\<open>while\<close> loop of \<^verbatim>\<open>extractFromNode\<close> for one text node that the tree
  walker reaches: the walker returns it only when the filter accepts it.
\<close>

definition visitTextNode :: "Element option \<Rightarrow> nat \<Rightarrow> jsstring \<Rightarrow> TextNodeInfo list" where
  "visitTextNode parent textNode textContent =
    (if filterTextNode parent textContent \<noteq> FILTER_ACCEPT then []
     else
       case parent of
         None \<Rightarrow> []
       | Some p \<Rightarrow>
          let trimmed = js_trim textContent
          in if length trimmed < MIN_TEXT_LENGTH \<or> length trimmed > MAX_TEXT_LENGTH then []
             else if \<not> isElementVisible p then []
             else [\<lparr>node = textNode, originalText = trimmed, parentElement = p\<rparr>])"

text \<open>
  The tree walker shows text nodes and elements; the filter skips every element, so its
  children are still visited, and the walk does not enter shadow roots.
\<close>

fun walk :: "Element option \<Rightarrow> dom_node \<Rightarrow> TextNodeInfo list" where
  "walk parent (TextNode textNode textContent) = visitTextNode parent textNode textContent"
| "walk parent (ElementNode e children shadow) = concat (map (walk (Some e)) children)"

text \<open>
  \<^verbatim>\<open>root.querySelectorAll('*')\<close> restricted to the elements with a shadow root: the shadow
  roots attached to the descendant elements, in document order.
\<close>

fun shadowRoots :: "dom_node \<Rightarrow> dom_node list list" where
  "shadowRoots (TextNode textNode textContent) = []"
| "shadowRoots (ElementNode e children shadow) =
     (case shadow of None \<Rightarrow> [] | Some sr \<Rightarrow> [sr]) @ concat (map shadowRoots children)"

function extractFromNode :: "Element option \<Rightarrow> dom_node list \<Rightarrow> TextNodeInfo list"
  and extractFromShadowRoots :: "dom_node list \<Rightarrow> TextNodeInfo list" where
  "extractFromNode parent children =
     concat (map (walk parent) children) @ extractFromShadowRoots children"
| "extractFromShadowRoots children =
     concat (map (extractFromNode None) (concat (map shadowRoots children)))"
  by pat_completeness auto

lemma shadowRoots_smaller: "sr \<in> set (shadowRoots n) \<Longrightarrow> size_list size sr < size n"
proof (induction n)
  case (TextNode textNode textContent)
  then show ?case by simp
next
  case (ElementNode e children shadow)
  from ElementNode.prems
  consider "shadow = Some sr" | c where "c \<in> set children" "sr \<in> set (shadowRoots c)"
    by (auto split: option.splits)
  then show ?case
  proof cases
    case 1
    then show ?thesis by simp
  next
    case 2
    with ElementNode.IH(1) have "size_list size sr < size c"
      by blast
    moreover from 2 have "size c \<le> size_list size children"
      by (simp add: size_list_estimation')
    ultimately show ?thesis by simp
  qed
qed

termination extractFromNode
proof (relation "measure (\<lambda>x. case x of Inl (parent, children) \<Rightarrow> 2 * size_list size children + 1
                                        | Inr children \<Rightarrow> 2 * size_list size children)")
  fix children :: "dom_node list" and sr
  assume "sr \<in> set (concat (map shadowRoots children))"
  then obtain c where c: "c \<in> set children" "sr \<in> set (shadowRoots c)"
    by auto
  from c(2) have "size_list size sr < size c"
    by (rule shadowRoots_smaller)
  moreover from c(1) have "size c \<le> size_list size children"
    by (simp add: size_list_estimation')
  ultimately show "(Inl (None, sr), Inr children)
      \<in> measure (\<lambda>x. case x of Inl (parent, children) \<Rightarrow> 2 * size_list size children + 1
                                        | Inr children \<Rightarrow> 2 * size_list size children)"
    by simp
qed simp_all

definition extractTextNodes :: "dom_root \<Rightarrow> TextNodeInfo list" where
  "extractTextNodes rootNode =
    (case rootNode of
       ElementRoot e children \<Rightarrow> extractFromNode (Some e) children
     | ShadowRoot children \<Rightarrow> extractFromNode None children)"

text \<open>
  Every text node below a root, shadow trees included, with its parent element, in the
  order in which \<^verbatim>\<open>extractFromNode\<close> reaches it.
\<close>

fun textNodesOf :: "Element option \<Rightarrow> dom_node \<Rightarrow> (nat \<times> jsstring \<times> Element option) list" where
  "textNodesOf parent (TextNode textNode textContent) = [(textNode, textContent, parent)]"
| "textNodesOf parent (ElementNode e children shadow) = concat (map (textNodesOf (Some e)) children)"

function allTextNodesFrom :: "Element option \<Rightarrow> dom_node list \<Rightarrow> (nat \<times> jsstring \<times> Element option) list" where
  "allTextNodesFrom parent children =
     concat (map (textNodesOf parent) children)
       @ concat (map (allTextNodesFrom None) (concat (map shadowRoots children)))"
  by pat_completeness auto
termination
proof (relation "measure (\<lambda>(parent, children). size_list size children)")
  fix parent :: "Element option" and children :: "dom_node list" and sr
  assume "sr \<in> set (concat (map shadowRoots children))"
  then obtain c where c: "c \<in> set children" "sr \<in> set (shadowRoots c)"
    by auto
  from c(2) have "size_list size sr < size c"
    by (rule shadowRoots_smaller)
  moreover from c(1) have "size c \<le> size_list size children"
    by (simp add: size_list_estimation')
  ultimately show "((None, sr), (parent, children)) \<in> measure (\<lambda>(parent, children). size_list size children)"
    by simp
qed simp

definition allTextNodes :: "dom_root \<Rightarrow> (nat \<times> jsstring \<times> Element option) list" where
  "allTextNodes rootNode =
    (case rootNode of
       ElementRoot e children \<Rightarrow> allTextNodesFrom (Some e) children
     | ShadowRoot children \<Rightarrow> allTextNodesFrom None children)"

declare extractFromNode.simps [simp del] extractFromShadowRoots.simps [simp del]
  allTextNodesFrom.simps [simp del]


text \<open>
  The conditions under which a text node with parent element \<open>p\<close> and trimmed text \<open>s\<close> is
  extracted: the structural, length, visibility and content filters together.
\<close>

definition eligible :: "Element \<Rightarrow> jsstring \<Rightarrow> bool" where
  "eligible p s =
    (tagName p \<notin> SKIP_TAGS \<and> \<not> isContentEditable p \<and> interface p = OtherElement
     \<and> MIN_TEXT_LENGTH \<le> length s \<and> length s \<le> MAX_TEXT_LENGTH
     \<and> style_display p \<noteq> ''none'' \<and> style_visibility p \<noteq> ''hidden''
     \<and> style_opacity p \<noteq> ''0''
     \<and> \<not> (rect_width p = 0 \<and> rect_height p = 0)
     \<and> real (match_count re_letter s) / real (length s) \<ge> 0.3)"

text \<open>
  The same conditions with the visibility filter read as the specification words it: the
  element does not occupy zero screen area, that is, its rectangle has a non-zero area.
\<close>

definition eligible_spec :: "Element \<Rightarrow> jsstring \<Rightarrow> bool" where
  "eligible_spec p s =
    (tagName p \<notin> SKIP_TAGS \<and> \<not> isContentEditable p \<and> interface p = OtherElement
     \<and> MIN_TEXT_LENGTH \<le> length s \<and> length s \<le> MAX_TEXT_LENGTH
     \<and> style_display p \<noteq> ''none'' \<and> style_visibility p \<noteq> ''hidden''
     \<and> style_opacity p \<noteq> ''0''
     \<and> rect_width p * rect_height p \<noteq> 0
     \<and> real (match_count re_letter s) / real (length s) \<ge> 0.3)"

text \<open>The unit that extraction yields for an eligible text node.\<close>

definition yield :: "(Element \<Rightarrow> jsstring \<Rightarrow> bool) \<Rightarrow> nat \<times> jsstring \<times> Element option \<Rightarrow> TextNodeInfo list" where
  "yield ok = (\<lambda>(textNode, textContent, parent).
     case parent of
       None \<Rightarrow> []
     | Some p \<Rightarrow>
        if ok p (js_trim textContent)
        then [\<lparr>node = textNode, originalText = js_trim textContent, parentElement = p\<rparr>]
        else [])"

subsection \<open>Viewport priority (\<^verbatim>\<open>isInViewport\<close>, \<^verbatim>\<open>sortByViewport\<close>)\<close>

record Window =
  innerWidth :: real
  innerHeight :: real

definition isInViewport :: "Window \<Rightarrow> Element \<Rightarrow> bool" where
  "isInViewport window element =
    (rect_top element < innerHeight window \<and> rect_bottom element > 0
     \<and> rect_left element < innerWidth window \<and> rect_right element > 0)"

text \<open>
  \<^verbatim>\<open>Array.prototype.sort\<close> is stable; the comparator \<^verbatim>\<open>bVisible - aVisible\<close> orders the units
  in the viewport before the others.
\<close>

definition sortByViewport :: "Window \<Rightarrow> TextNodeInfo list \<Rightarrow> TextNodeInfo list" where
  "sortByViewport window ns =
     sort_key (\<lambda>a. if isInViewport window (parentElement a) then 0 else 1 :: nat) ns"

subsection \<open>The translation cache\<close>

text \<open>
  Modelled from the spec: \<^verbatim>\<open>content/translation-cache.ts\<close> is not among the sources. The
  cache is a table from (text, source language, target language) to a translation with
  its creation time; an entry older than 24 hours is not returned, the table holds at
  most 1000 entries and storing one more evicts the oldest; \<^verbatim>\<open>getMultiple\<close> splits a list
  of texts into the cached translations by input index and the misses as (index, text)
  pairs, both in input order.
\<close>

record CacheEntry =
  entry_text :: jsstring
  entry_sourceLang :: LanguageCode
  entry_targetLang :: LanguageCode
  entry_translated :: jsstring
  entry_timestamp :: nat

type_synonym TranslationCache = "CacheEntry list"

definition CACHE_TTL :: nat where "CACHE_TTL = 24 * 60 * 60 * 1000"
definition CACHE_CAPACITY :: nat where "CACHE_CAPACITY = 1000"

definition entry_for :: "jsstring \<Rightarrow> LanguageCode \<Rightarrow> LanguageCode \<Rightarrow> CacheEntry \<Rightarrow> bool" where
  "entry_for s src tgt e =
     (entry_text e = s \<and> entry_sourceLang e = src \<and> entry_targetLang e = tgt)"

definition cache_get ::
  "nat \<Rightarrow> TranslationCache \<Rightarrow> jsstring \<Rightarrow> LanguageCode \<Rightarrow> LanguageCode \<Rightarrow> jsstring option" where
  "cache_get now cache s src tgt =
    (case find (entry_for s src tgt) cache of
       None \<Rightarrow> None
     | Some e \<Rightarrow> if entry_timestamp e + CACHE_TTL < now then None else Some (entry_translated e))"

definition cache_set ::
  "nat \<Rightarrow> TranslationCache \<Rightarrow> jsstring \<Rightarrow> jsstring \<Rightarrow> LanguageCode \<Rightarrow> LanguageCode
     \<Rightarrow> TranslationCache" where
  "cache_set now cache s t src tgt =
     take CACHE_CAPACITY
       (\<lparr>entry_text = s, entry_sourceLang = src, entry_targetLang = tgt,
         entry_translated = t, entry_timestamp = now\<rparr>
        # filter (\<lambda>e. \<not> entry_for s src tgt e) cache)"

definition getMultiple ::
  "nat \<Rightarrow> TranslationCache \<Rightarrow> jsstring list \<Rightarrow> LanguageCode \<Rightarrow> LanguageCode
     \<Rightarrow> (nat \<times> jsstring) list \<times> uncached_text list" where
  "getMultiple now cache texts src tgt =
    (let indexed = zip [0..<length texts] texts
     in (concat (map (\<lambda>(i, s). case cache_get now cache s src tgt of
                                   None \<Rightarrow> [] | Some t \<Rightarrow> [(i, t)]) indexed),
         concat (map (\<lambda>(i, s). case cache_get now cache s src tgt of
                                   None \<Rightarrow> [\<lparr>index = i, text' = s\<rparr>] | Some t \<Rightarrow> []) indexed)))"

subsection \<open>The document applier\<close>

text \<open>
  Modelled from the spec: \<^verbatim>\<open>content/dom-translator.ts\<close> is not among the sources. The
  applier holds the live document, here the text shown by each \<^verbatim>\<open>Text\<close> node (\<open>None\<close> once
  the node's position is gone), and the units it has translated with their original
  texts. \<^verbatim>\<open>applyTranslations\<close> writes each result into its unit and records the original
  of a unit not yet translated; a unit whose position is gone is ignored.
  \<^verbatim>\<open>restoreOriginal\<close> writes every recorded original back and clears the record.
  \<^verbatim>\<open>getStatus\<close> says whether any unit is translated and how many are.
\<close>

record DomTranslator =
  document :: "nat \<Rightarrow> jsstring option"
  originals :: "(nat \<times> jsstring) list"

definition apply_one :: "DomTranslator \<Rightarrow> TextNodeInfo option \<times> TranslatedText \<Rightarrow> DomTranslator" where
  "apply_one dt = (\<lambda>(unit, result).
     case unit of
       None \<Rightarrow> dt
     | Some u \<Rightarrow>
        (case document dt (node u) of
           None \<Rightarrow> dt
         | Some shown \<Rightarrow>
            \<lparr>document = (document dt)(node u \<mapsto> translated result),
             originals = (if node u \<in> fst ` set (originals dt) then originals dt
                          else originals dt @ [(node u, shown)])\<rparr>))"

definition applyTranslations ::
  "DomTranslator \<Rightarrow> TextNodeInfo option list \<Rightarrow> TranslatedText list \<Rightarrow> DomTranslator" where
  "applyTranslations dt units results = foldl apply_one dt (zip units results)"

definition restore_one :: "(nat \<Rightarrow> jsstring option) \<Rightarrow> nat \<times> jsstring \<Rightarrow> (nat \<Rightarrow> jsstring option)" where
  "restore_one doc = (\<lambda>(n, orig). case doc n of None \<Rightarrow> doc | Some shown \<Rightarrow> doc(n \<mapsto> orig))"

definition restoreOriginal :: "DomTranslator \<Rightarrow> DomTranslator" where
  "restoreOriginal dt = \<lparr>document = foldl restore_one (document dt) (originals dt), originals = []\<rparr>"

record DomStatus =
  isTranslated :: bool
  count :: nat

definition getStatus :: "DomTranslator \<Rightarrow> DomStatus" where
  "getStatus dt = \<lparr>isTranslated = (originals dt \<noteq> []), count = length (originals dt)\<rparr>"

subsection \<open>The content script (\<^verbatim>\<open>PlainlyContentScript\<close>)\<close>

record Settings =
  sourceLang :: LanguageCode
  targetLang :: LanguageCode

text \<open>The payload of a \<^verbatim>\<open>TRANSLATE_TEXT\<close> message and the response to it.\<close>

record TranslatePayload =
  payload_texts :: "jsstring list"
  payload_sourceLang :: LanguageCode
  payload_targetLang :: LanguageCode

record TranslationResponse =
  success :: bool
  data :: "TranslatedText list option"
  error :: "string option"

text \<open>
  One call of \<^verbatim>\<open>translateNodesParallel\<close> that is suspended at \<^verbatim>\<open>await Promise.all\<close>, or
  that has returned or thrown while calls it issued are still outstanding:
  \<^item> \<open>inv_newNodes\<close>: the units it admitted and added to \<^verbatim>\<open>translatingNodes\<close>;
  \<^item> \<open>inv_batches\<close>: the batches that the window loop has not reached yet;
  \<^item> \<open>inv_window\<close>: the batches whose \<^verbatim>\<open>sendMessage\<close> is outstanding;
  \<^item> \<open>inv_running\<close>: the call has neither returned nor thrown;
  \<^item> \<open>inv_sourceLang\<close>: the source language that was configured when the units were
    admitted (not a variable of the source; recorded to state the language gate).
\<close>

record invocation =
  inv_newNodes :: "TextNodeInfo list"
  inv_batches :: "batch list"
  inv_window :: "batch list"
  inv_running :: bool
  inv_sourceLang :: LanguageCode

text \<open>
  The state of the content script: the fields \<^verbatim>\<open>isEnabled\<close>, \<^verbatim>\<open>settings\<close> and
  \<^verbatim>\<open>translatingNodes\<close> of the class, the two module-level singletons it drives, the
  clock that the cache reads, the calls of \<^verbatim>\<open>translateNodesParallel\<close> in progress, and the
  log of every \<^verbatim>\<open>TRANSLATE_TEXT\<close> message sent so far with the call that sent it. The
  mutation observers and the tooltip are left out: observers only decide when the
  environment may deliver a flush.
\<close>

record PlainlyContentScript =
  isEnabled :: bool
  settings :: Settings
  translatingNodes :: "nat set"
  translationCache :: TranslationCache
  domTranslator :: DomTranslator
  clock :: nat
  invocations :: "invocation list"
  sent :: "(nat \<times> TranslatePayload) list"

text \<open>The \<^verbatim>\<open>finally\<close> block of the call \<open>i\<close>, which ends it.\<close>

definition finally_block :: "nat \<Rightarrow> PlainlyContentScript \<Rightarrow> PlainlyContentScript" where
  "finally_block i s =
    (let inv = invocations s ! i
     in s\<lparr>translatingNodes := translatingNodes s - set (map node (inv_newNodes inv)),
          invocations := (invocations s)[i := inv\<lparr>inv_running := False\<rparr>]\<rparr>)"

text \<open>
  The first half of \<^verbatim>\<open>translateBatch\<close>, up to its \<^verbatim>\<open>await\<close>: the message it sends, with the
  settings of that moment.
\<close>

definition batch_payload :: "Settings \<Rightarrow> batch \<Rightarrow> TranslatePayload" where
  "batch_payload st b =
     \<lparr>payload_texts = map text' (indices b),
      payload_sourceLang = sourceLang st, payload_targetLang = targetLang st\<rparr>"

text \<open>
  One round of the window loop of the call \<open>i\<close>,
  \<^verbatim>\<open>for (let i = 0; i < batches.length; i += MAX_CONCURRENT_REQUESTS)\<close>: when no batch is
  left the loop ends and the \<^verbatim>\<open>finally\<close> block runs; otherwise the next
  \<^verbatim>\<open>MAX_CONCURRENT_REQUESTS\<close> batches are sent and the call waits for all of them.
\<close>

definition window_loop :: "nat \<Rightarrow> PlainlyContentScript \<Rightarrow> PlainlyContentScript" where
  "window_loop i s =
    (let inv = invocations s ! i
     in if inv_batches inv = [] then finally_block i s
        else
          let concurrentBatches = take MAX_CONCURRENT_REQUESTS (inv_batches inv)
          in s\<lparr>invocations := (invocations s)
                   [i := inv\<lparr>inv_batches := drop MAX_CONCURRENT_REQUESTS (inv_batches inv),
                             inv_window := concurrentBatches\<rparr>],
               sent := sent s @ map (\<lambda>b. (i, batch_payload (settings s) b)) concurrentBatches\<rparr>)"

text \<open>
  The second half of \<^verbatim>\<open>translateBatch\<close>, after the response has arrived: the results go
  into the cache and, if the pipeline is enabled at that moment, into the document.
\<close>

definition translateBatch_resume ::
  "batch \<Rightarrow> TranslationResponse option \<Rightarrow> PlainlyContentScript \<Rightarrow> PlainlyContentScript" where
  "translateBatch_resume b response s =
    (case response of
       None \<Rightarrow> s
     | Some r \<Rightarrow>
        (case data r of
           None \<Rightarrow> s
         | Some results \<Rightarrow>
            if success r then
              let s1 = s\<lparr>translationCache :=
                          foldl (\<lambda>cache result.
                                   cache_set (clock s) cache (original result) (translated result)
                                     (sourceLang (settings s)) (targetLang (settings s)))
                                (translationCache s) results\<rparr>
              in if isEnabled s1
                 then s1\<lparr>domTranslator := applyTranslations (domTranslator s1) (nodes b) results\<rparr>
                 else s1
            else s))"

text \<open>How an outstanding \<^verbatim>\<open>sendMessage\<close> ends: with a response, or by throwing.\<close>

datatype settled = Resolved "TranslationResponse option" | Rejected

text \<open>
  The outstanding call at position \<open>j\<close> of the window of the call \<open>i\<close> settles. A response
  resumes \<^verbatim>\<open>translateBatch\<close>; when it was the last of the window and the call is still
  running, \<^verbatim>\<open>Promise.all\<close> resolves and the loop goes on. A rejection makes \<^verbatim>\<open>Promise.all\<close>
  reject at once: a running call leaves through its \<^verbatim>\<open>finally\<close> block, and the other calls
  of the window stay outstanding. \<open>call_settled\<close> takes the call out of the outstanding ones.
\<close>

definition call_settled :: "nat \<Rightarrow> nat \<Rightarrow> PlainlyContentScript \<Rightarrow> PlainlyContentScript" where
  "call_settled i j s =
    (let inv = invocations s ! i
     in s\<lparr>invocations := (invocations s)
            [i := inv\<lparr>inv_window := take j (inv_window inv) @ drop (Suc j) (inv_window inv)\<rparr>]\<rparr>)"

definition settle :: "nat \<Rightarrow> nat \<Rightarrow> settled \<Rightarrow> PlainlyContentScript \<Rightarrow> PlainlyContentScript" where
  "settle i j outcome s =
    (if i < length (invocations s) \<and> j < length (inv_window (invocations s ! i)) then
       let inv = invocations s ! i;
           b = inv_window inv ! j;
           s1 = call_settled i j s
       in (case outcome of
             Resolved response \<Rightarrow>
               let s2 = translateBatch_resume b response s1
               in if inv_running inv \<and> inv_window (invocations s2 ! i) = []
                  then window_loop i s2 else s2
           | Rejected \<Rightarrow> if inv_running inv then finally_block i s1 else s1)
     else s)"

text \<open>The units that \<^verbatim>\<open>translateNodesParallel\<close> admits: the filter that gives \<^verbatim>\<open>newNodes\<close>.\<close>

definition admitted :: "PlainlyContentScript \<Rightarrow> TextNodeInfo list \<Rightarrow> TextNodeInfo list" where
  "admitted s textNodes =
     filter (\<lambda>n. if node n \<in> translatingNodes s then False
                  else isSourceLanguage (originalText n) (sourceLang (settings s))) textNodes"

text \<open>
  \<^verbatim>\<open>translateNodesParallel\<close> up to its first \<^verbatim>\<open>await\<close>, or to its end when nothing has to be
  requested.
\<close>

definition translateNodesParallel ::
  "TextNodeInfo list \<Rightarrow> PlainlyContentScript \<Rightarrow> PlainlyContentScript" where
  "translateNodesParallel textNodes s =
    (let newNodes = admitted s textNodes
     in if length newNodes = 0 then s
        else
          let s1 = s\<lparr>translatingNodes := translatingNodes s \<union> set (map node newNodes)\<rparr>;
              texts = map originalText newNodes;
              (cached, uncached) =
                 getMultiple (clock s1) (translationCache s1) texts
                   (sourceLang (settings s1)) (targetLang (settings s1));
              s2 = (if length cached > 0 then
                      let cachedNodes = map (\<lambda>(i, t). js_index newNodes i) cached;
                          cachedResults =
                            map (\<lambda>(i, t). \<lparr>original = texts ! i, translated = t\<rparr>) cached
                      in if isEnabled s1
                         then s1\<lparr>domTranslator :=
                                   applyTranslations (domTranslator s1) cachedNodes cachedResults\<rparr>
                         else s1
                    else s1)
          in if length uncached > 0 then
               let batches = make_batches newNodes uncached 0;
                   i = length (invocations s2)
               in window_loop i
                    (s2\<lparr>invocations := invocations s2 @
                          [\<lparr>inv_newNodes = newNodes, inv_batches = batches, inv_window = [],
                            inv_running = True, inv_sourceLang = sourceLang (settings s)\<rparr>]\<rparr>)
             else s2\<lparr>translatingNodes := translatingNodes s2 - set (map node newNodes)\<rparr>)"

definition translateVisibleContent ::
  "dom_root \<Rightarrow> Window \<Rightarrow> PlainlyContentScript \<Rightarrow> PlainlyContentScript" where
  "translateVisibleContent body' window s =
    (let textNodes = extractTextNodes body'
     in if length textNodes = 0 then s
        else translateNodesParallel (sortByViewport window textNodes) s)"

definition enable :: "dom_root \<Rightarrow> Window \<Rightarrow> PlainlyContentScript \<Rightarrow> PlainlyContentScript" where
  "enable body' window s =
    (if isEnabled s then s
     else translateVisibleContent body' window (s\<lparr>isEnabled := True\<rparr>))"

definition disable :: "PlainlyContentScript \<Rightarrow> PlainlyContentScript" where
  "disable s =
    (if \<not> isEnabled s then s
     else s\<lparr>isEnabled := False, domTranslator := restoreOriginal (domTranslator s)\<rparr>)"

text \<open>The debounce timer of the mutation watcher fires with the pending roots.\<close>

definition flush :: "dom_root list \<Rightarrow> PlainlyContentScript \<Rightarrow> PlainlyContentScript" where
  "flush nodesToProcess s =
     foldl (\<lambda>s' n. let textNodes = extractTextNodes n
                    in if length textNodes > 0 then translateNodesParallel textNodes s' else s')
           s nodesToProcess"

text \<open>
  What can happen to the content script, one task of the event loop each: \<^verbatim>\<open>enable()\<close> with
  the document body and window of that moment, \<^verbatim>\<open>disable()\<close>, a flush of the mutation
  watcher, the settling of an outstanding call, a change of the stored settings, and the
  passing of time.
\<close>

datatype event =
    Enable dom_root Window
  | Disable
  | Flush "dom_root list"
  | Settle nat nat settled
  | SettingsChanged LanguageCode LanguageCode
  | Tick nat

fun step :: "PlainlyContentScript \<Rightarrow> event \<Rightarrow> PlainlyContentScript" where
  "step s (Enable body' window) = enable body' window s"
| "step s Disable = disable s"
| "step s (Flush nodesToProcess) = flush nodesToProcess s"
| "step s (Settle i j outcome) = settle i j outcome s"
| "step s (SettingsChanged src tgt) = s\<lparr>settings := \<lparr>sourceLang = src, targetLang = tgt\<rparr>\<rparr>"
| "step s (Tick ms) = s\<lparr>clock := clock s + ms\<rparr>"

definition run :: "PlainlyContentScript \<Rightarrow> event list \<Rightarrow> PlainlyContentScript" where
  "run s events = foldl step s events"

text \<open>The content script when it is constructed: disabled, nothing in flight.\<close>

definition initial :: "Settings \<Rightarrow> (nat \<Rightarrow> jsstring option) \<Rightarrow> PlainlyContentScript" where
  "initial st doc =
     \<lparr>isEnabled = False, settings = st, translatingNodes = {}, translationCache = [],
      domTranslator = \<lparr>document = doc, originals = []\<rparr>, clock = 0,
      invocations = [], sent = []\<rparr>"

text \<open>The answers to \<^verbatim>\<open>GET_STATUS\<close>: of the content script and of the service worker.\<close>

record TranslationStatus = DomStatus +
  autoTranslate :: bool

definition content_getStatus :: "PlainlyContentScript \<Rightarrow> TranslationStatus" where
  "content_getStatus s =
    (let status = getStatus (domTranslator s)
     in \<lparr>isTranslated = isTranslated status, count = count status, autoTranslate = isEnabled s\<rparr>)"

record TranslationSettings = Settings +
  settings_autoTranslate :: bool

definition worker_getStatus :: "TranslationSettings \<Rightarrow> TranslationStatus" where
  "worker_getStatus stored =
     \<lparr>isTranslated = False, count = 0, autoTranslate = settings_autoTranslate stored\<rparr>"

text \<open>
  Notions the properties are stated with: an event that is a call of \<^verbatim>\<open>enable()\<close>; every
  call of \<^verbatim>\<open>translateNodesParallel\<close> has at most \<^verbatim>\<open>MAX_CONCURRENT_REQUESTS\<close> messages
  outstanding; the messages that the call \<open>i\<close> has sent so far.
\<close>

fun is_Enable :: "event \<Rightarrow> bool" where
  "is_Enable (Enable body' window) = True"
| "is_Enable e = False"

definition window_bounded :: "PlainlyContentScript \<Rightarrow> bool" where
  "window_bounded s =
     list_all (\<lambda>inv. length (inv_window inv) \<le> MAX_CONCURRENT_REQUESTS) (invocations s)"

definition sent_by :: "nat \<Rightarrow> PlainlyContentScript \<Rightarrow> TranslatePayload list" where
  "sent_by i s = map snd (filter (\<lambda>(k, p). k = i) (sent s))"

text \<open>
  The calls of \<^verbatim>\<open>translateNodesParallel\<close> that have not completed, the units that a call
  added to \<^verbatim>\<open>translatingNodes\<close>, and the agreement of the set with the calls: it holds
  exactly the units of the calls that have not completed, and no unit belongs to two.
\<close>

definition running :: "PlainlyContentScript \<Rightarrow> nat list" where
  "running s = filter (\<lambda>k. inv_running (invocations s ! k)) [0..<length (invocations s)]"

definition units_of :: "PlainlyContentScript \<Rightarrow> nat \<Rightarrow> nat set" where
  "units_of s k = set (map node (inv_newNodes (invocations s ! k)))"

definition in_flight_consistent :: "PlainlyContentScript \<Rightarrow> bool" where
  "in_flight_consistent s =
     (translatingNodes s = (\<Union>k \<in> set (running s). units_of s k)
      \<and> (\<forall>k \<in> set (running s). \<forall>l \<in> set (running s).
            k \<noteq> l \<longrightarrow> units_of s k \<inter> units_of s l = {}))"




text \<open>
  The units that show a translation: those whose original the applier holds. The applier
  keeps track of a document that started as \<open>doc\<close> when it holds each unit at most once,
  with the text that \<open>doc\<close> had there, and the units it does not hold show what \<open>doc\<close> had.
\<close>

definition translated_units :: "PlainlyContentScript \<Rightarrow> nat set" where
  "translated_units s = fst ` set (originals (domTranslator s))"

definition tracks :: "(nat \<Rightarrow> jsstring option) \<Rightarrow> DomTranslator \<Rightarrow> bool" where
  "tracks doc dt =
     (distinct (map fst (originals dt))
      \<and> (\<forall>(n, orig) \<in> set (originals dt). doc n = Some orig \<and> document dt n \<noteq> None)
      \<and> (\<forall>n. n \<notin> fst ` set (originals dt) \<longrightarrow> document dt n = doc n))"

subsection \<open>A small page, for the examples\<close>

text \<open>
  A visible \<^verbatim>\<open>div\<close>, a page whose body holds the text node 1 with the text \<^verbatim>\<open>Hello\<close>, a
  window, the content script as constructed for that page with source language English
  and target language Korean, and a successful response that translates \<^verbatim>\<open>Hello\<close>.
\<close>

definition example_div :: Element where
  "example_div =
     \<lparr>tagName = ''DIV'', isContentEditable = False, interface = OtherElement,
      style_display = ''block'', style_visibility = ''visible'', style_opacity = ''1'',
      rect_top = 0, rect_bottom = 20, rect_left = 0, rect_right = 100,
      rect_width = 100, rect_height = 20\<rparr>"

definition example_page :: dom_root where
  "example_page =
     ElementRoot example_div
       [ElementNode example_div [TextNode 1 [0x48, 0x65, 0x6C, 0x6C, 0x6F]] None]"

definition example_window :: Window where
  "example_window = \<lparr>innerWidth = 800, innerHeight = 600\<rparr>"

definition example_script :: PlainlyContentScript where
  "example_script =
     initial \<lparr>sourceLang = En, targetLang = Ko\<rparr> (Map.empty(1 \<mapsto> [0x48, 0x65, 0x6C, 0x6C, 0x6F]))"

definition example_response :: settled where
  "example_response =
     Resolved (Some \<lparr>success = True,
                     data = Some [\<lparr>original = [0x48, 0x65, 0x6C, 0x6C, 0x6F],
                                   translated = [0xC548, 0xB155]\<rparr>],
                     error = None\<rparr>)"

text \<open>Seventy-three units with the text \<^verbatim>\<open>Hi\<close>: ten batches.\<close>

definition example_units :: "TextNodeInfo list" where
  "example_units =
     map (\<lambda>k. \<lparr>node = k, originalText = [0x48, 0x69], parentElement = example_div\<rparr>) [0..<73]"


section \<open>Properties\<close>

subsection \<open>The language classifier\<close>

lemma class_disjoint:
    "(if classifiable c then 1 else 0 :: nat) =
       (if re_hangul c then 1 else 0) + (if re_kana c then 1 else 0)
         + (if re_cjk c then 1 else 0) + (if re_latin c then 1 else 0)"
    unfolding classifiable_def re_hangul_def re_kana_def re_cjk_def re_latin_def
      re_ascii_letter_def word_le_nat_alt
    by (simp split: if_splits) 

lemma classifiable_count:
  "length (filter classifiable str) =
     match_count re_hangul str + match_count re_kana str
       + match_count re_cjk str + match_count re_latin str"
proof (induction str)
  case Nil
  show ?case by (simp add: match_count_def)
next
  case (Cons c cs)
  from Cons class_disjoint[of c] show ?case
    by (auto simp: match_count_def split: if_splits)
qed


lemma detect_total_zero: 
  "(match_count re_hangul str + match_count re_kana str
       + match_count re_cjk str + match_count re_latin str = 0) = (filter classifiable str = [])"
proof -
  have "(filter classifiable str = []) = (length (filter classifiable str) = 0)"
    by simp
  then show ?thesis
    by (simp only: classifiable_count)
qed

text \<open>
  C5. The classifier of the source computes what the specification describes: the ratios
  of Hangul, kana and CJK characters among the classifiable characters decide, in this
  order, Korean (above 0.6), Japanese (above 0.3), Chinese (above 0.5 with kana below
  0.1) and English (all three below 0.1); everything else, and a text without any
  classifiable character, is mixed.
\<close>

theorem detectLanguage_classify_spec: "detectLanguage str = classify_spec str"
  unfolding detectLanguage_def classify_spec_def script_ratio_def Let_def
    detect_total_zero classifiable_count
  by (simp add: match_count_def)

theorem detectLanguage_classify_spec_witness:
  "detectLanguage [0xD55C, 0xAD6D, 0xC5B4] = Lang Ko
   \<and> classify_spec [0xD55C, 0xAD6D, 0xC5B4] = Lang Ko
   \<and> detectLanguage [0x3053, 0x3093, 0x65E5, 0x672C] = Lang Ja
   \<and> detectLanguage [0x4E2D, 0x6587] = Lang Zh
   \<and> detectLanguage [0x48, 0x65, 0x6C, 0x6C, 0x6F] = Lang En
   \<and> detectLanguage [0x48, 0x69, 0xD55C] = Mixed
   \<and> detectLanguage [0x31, 0x32, 0x33] = Mixed"
  using detectLanguage_classify_spec [of "[0xD55C, 0xAD6D, 0xC5B4]"]
  by (simp add: detectLanguage_def match_count_def re_hangul_def re_kana_def re_cjk_def re_latin_def re_ascii_letter_def)

subsection \<open>Batch partitioning\<close>

lemma make_batches_done: "\<not> i < length uncached \<Longrightarrow> make_batches newNodes uncached i = []"
  by (subst make_batches.simps) simp

lemma make_batches_more:
  "i < length uncached \<Longrightarrow>
     make_batches newNodes uncached i =
       \<lparr>indices = take 8 (drop i uncached),
        nodes = map (\<lambda>u. js_index newNodes (index u)) (take 8 (drop i uncached))\<rparr>
         # make_batches newNodes uncached (i + 8)"
  by (subst make_batches.simps) (simp add: js_slice_def Let_def MAX_TEXTS_PER_REQUEST_def)

lemma make_batches_concat:
  "concat (map indices (make_batches newNodes uncached i)) = drop i uncached"
proof (induction newNodes uncached i rule: make_batches.induct)
  case (1 newNodes uncached i)
  show ?case
  proof (cases "i < length uncached")
    case True
    have "take 8 (drop i uncached) @ drop (i + 8) uncached = drop i uncached"
      by (metis add.commute append_take_drop_id drop_drop)
    with True "1.IH" show ?thesis
      by (simp add: make_batches_more MAX_TEXTS_PER_REQUEST_def)
  next
    case False
    then show ?thesis by (simp add: make_batches_done)
  qed
qed


lemma chunk_sizes_full:
  "(8::nat) \<le> n \<Longrightarrow>
     replicate (n div 8) 8 @ (if n mod 8 = 0 then [] else [n mod 8]) =
       8 # (replicate ((n - 8) div 8) 8 @ (if (n - 8) mod 8 = 0 then [] else [(n - 8) mod 8]))"
  by (simp add: le_div_geq le_mod_geq)

lemma chunk_sizes_short:
  "\<not> (8::nat) \<le> n \<Longrightarrow> 0 < n \<Longrightarrow>
     replicate (n div 8) 8 @ (if n mod 8 = 0 then [] else [n mod 8]) = [n]"
  by simp

lemma make_batches_sizes:
  "map (\<lambda>b. length (indices b)) (make_batches newNodes uncached i) =
     replicate ((length uncached - i) div 8) 8
       @ (if (length uncached - i) mod 8 = 0 then [] else [(length uncached - i) mod 8])"
proof (induction newNodes uncached i rule: make_batches.induct)
  case (1 newNodes uncached i)
  let ?n = "length uncached - i"
  show ?case
  proof (cases "i < length uncached")
    case False
    then show ?thesis by (simp add: make_batches_done)
  next
    case True
    have shift: "length uncached - (i + 8) = ?n - 8"
      by simp
    have IH: "map (\<lambda>b. length (indices b)) (make_batches newNodes uncached (i + 8)) =
       replicate ((?n - 8) div 8) 8 @ (if (?n - 8) mod 8 = 0 then [] else [(?n - 8) mod 8])"
      using "1.IH"[OF True refl refl] by (simp only: MAX_TEXTS_PER_REQUEST_def shift)
    have head: "map (\<lambda>b. length (indices b)) (make_batches newNodes uncached i) =
       min ?n 8 # map (\<lambda>b. length (indices b)) (make_batches newNodes uncached (i + 8))"
      by (simp only: make_batches_more[OF True] list.map batch.simps length_take length_drop)
    show ?thesis
    proof (cases "8 \<le> ?n")
      case full: True
      then have "min ?n 8 = 8" by simp
      with head IH chunk_sizes_full[OF full] show ?thesis
        by (simp only:)
    next
      case short: False
      have rest: "make_batches newNodes uncached (i + 8) = []"
        by (rule make_batches_done) (use short in linarith)
      from short have "min ?n 8 = ?n" by simp
      moreover from True have "0 < ?n" by simp
      ultimately show ?thesis
        using head rest chunk_sizes_short[OF short] by (simp only: list.map)
    qed
  qed
qed


lemma make_batches_nodes:
  "b \<in> set (make_batches newNodes uncached i) \<Longrightarrow>
     nodes b = map (\<lambda>u. js_index newNodes (index u)) (indices b)"
proof (induction newNodes uncached i rule: make_batches.induct)
  case (1 newNodes uncached i)
  show ?case
  proof (cases "i < length uncached")
    case True
    from "1.prems" have "b = \<lparr>indices = take 8 (drop i uncached),
        nodes = map (\<lambda>u. js_index newNodes (index u)) (take 8 (drop i uncached))\<rparr>
        \<or> b \<in> set (make_batches newNodes uncached (i + 8))"
      by (simp add: make_batches_more[OF True])
    with "1.IH"[OF True refl refl] show ?thesis
      by (auto simp: MAX_TEXTS_PER_REQUEST_def)
  next
    case False
    with "1.prems" show ?thesis by (simp add: make_batches_done)
  qed
qed

lemma make_batches_size_bounds:
  assumes "b \<in> set (make_batches newNodes uncached i)"
  shows "0 < length (indices b) \<and> length (indices b) \<le> 8"
proof -
  from assms have "length (indices b) \<in> set (map (\<lambda>b. length (indices b)) (make_batches newNodes uncached i))"
    by (simp only: set_map) (rule imageI)
  then have "length (indices b) \<in> set (replicate ((length uncached - i) div 8) 8
       @ (if (length uncached - i) mod 8 = 0 then [] else [(length uncached - i) mod 8]))"
    by (simp only: make_batches_sizes)
  then show ?thesis
    by (auto split: if_splits)
qed

text \<open>
  C3. The uncached texts are cut into consecutive batches in their original order: every
  batch holds between one and \<open>MAX_TEXTS_PER_REQUEST = 8\<close> texts, all batches but the last
  hold exactly eight, and twenty texts give three batches of sizes 8, 8 and 4.
\<close>

theorem batch_partitioning:
  "concat (map indices (make_batches newNodes uncached 0)) = uncached
   \<and> map (\<lambda>b. length (indices b)) (make_batches newNodes uncached 0) =
       replicate (length uncached div MAX_TEXTS_PER_REQUEST) MAX_TEXTS_PER_REQUEST
         @ (if length uncached mod MAX_TEXTS_PER_REQUEST = 0 then []
            else [length uncached mod MAX_TEXTS_PER_REQUEST])
   \<and> (\<forall>b \<in> set (make_batches newNodes uncached 0).
         0 < length (indices b) \<and> length (indices b) \<le> MAX_TEXTS_PER_REQUEST
         \<and> nodes b = map (\<lambda>u. js_index newNodes (index u)) (indices b))
   \<and> (length uncached = 20 \<longrightarrow>
         map (\<lambda>b. length (indices b)) (make_batches newNodes uncached 0) = [8, 8, 4])"
proof (intro conjI ballI impI)
  show "concat (map indices (make_batches newNodes uncached 0)) = uncached"
    by (simp add: make_batches_concat)
  show sizes: "map (\<lambda>b. length (indices b)) (make_batches newNodes uncached 0) =
       replicate (length uncached div MAX_TEXTS_PER_REQUEST) MAX_TEXTS_PER_REQUEST
         @ (if length uncached mod MAX_TEXTS_PER_REQUEST = 0 then []
            else [length uncached mod MAX_TEXTS_PER_REQUEST])"
    using make_batches_sizes[of newNodes uncached 0]
    by (simp only: MAX_TEXTS_PER_REQUEST_def diff_zero)
  show "map (\<lambda>b. length (indices b)) (make_batches newNodes uncached 0) = [8, 8, 4]"
    if "length uncached = 20"
  proof -
    have "replicate (20 div 8) (8::nat) @ (if (20::nat) mod 8 = 0 then [] else [20 mod 8]) = [8, 8, 4]"
      by (simp add: numeral_2_eq_2)
    with make_batches_sizes[of newNodes uncached 0] that show ?thesis
      by (simp only: diff_zero)
  qed
next
  fix b assume b: "b \<in> set (make_batches newNodes uncached 0)"
  from make_batches_size_bounds[OF b]
  show "0 < length (indices b)" and "length (indices b) \<le> MAX_TEXTS_PER_REQUEST"
    by (simp_all add: MAX_TEXTS_PER_REQUEST_def)
  from make_batches_nodes[OF b]
  show "nodes b = map (\<lambda>u. js_index newNodes (index u)) (indices b)" .
qed

theorem batch_partitioning_witness:
  "length (map (\<lambda>i. \<lparr>index = i, text' = [0x48, 0x69]\<rparr>) [0..<20]) = 20
   \<and> map (\<lambda>b. length (indices b))
         (make_batches [] (map (\<lambda>i. \<lparr>index = i, text' = [0x48, 0x69]\<rparr>) [0..<20]) 0) = [8, 8, 4]
   \<and> concat (map indices
         (make_batches [] (map (\<lambda>i. \<lparr>index = i, text' = [0x48, 0x69]\<rparr>) [0..<20]) 0))
       = map (\<lambda>i. \<lparr>index = i, text' = [0x48, 0x69]\<rparr>) [0..<20]"
proof -
  let ?u = "map (\<lambda>i. \<lparr>index = i, text' = [0x48, 0x69 :: 16 word]\<rparr>) [0..<20]"
  have len: "length ?u = 20"
    by simp
  note bp = batch_partitioning [of "[]" ?u]
  from bp len have "map (\<lambda>b. length (indices b)) (make_batches [] ?u 0) = [8, 8, 4]"
    by blast
  moreover from bp have "concat (map indices (make_batches [] ?u 0)) = ?u"
    by blast
  ultimately show ?thesis
    using len by blast
qed

subsection \<open>The translation endpoint\<close>

lemma bad_request_failure:
  "snd (bad_request msg) = [] \<and> structured_failure (fst (bad_request msg))"
  by (simp add: bad_request_def structured_failure_def)

lemma handler_not_post:
  "req_method req \<noteq> ''POST'' \<Longrightarrow>
     snd (handler env req) = []
     \<and> (req_method req \<noteq> ''OPTIONS'' \<longrightarrow> structured_failure (fst (handler env req)))"
  by (simp add: handler_def structured_failure_def)

lemma handler_post_no_body:
  "req_method req = ''POST'' \<Longrightarrow> body req = None \<Longrightarrow>
     snd (handler env req) = [] \<and> structured_failure (fst (handler env req))"
  by (simp add: handler_def structured_failure_def)

lemma handler_post_no_texts:
  "req_method req = ''POST'' \<Longrightarrow> body req = Some b \<Longrightarrow> req_texts b = None \<Longrightarrow>
     handler env req = bad_request ''texts array is required''"
  by (simp add: handler_def)

lemma handler_post_texts:
  "req_method req = ''POST'' \<Longrightarrow> body req = Some b \<Longrightarrow> req_texts b = Some ts \<Longrightarrow>
     handler env req =
       (if length ts = 0 then bad_request ''texts array is required''
        else if length ts > 50 then bad_request ''Maximum 50 texts per request''
        else if falsy (req_sourceLang b) \<or> falsy (req_targetLang b) then
          bad_request ''sourceLang and targetLang are required''
        else
          (case translateWithDeepSeek env ts (the (req_sourceLang b)) (the (req_targetLang b)) of
             (Inl message, calls) \<Rightarrow>
               (\<lparr>res_status = 500, res_json = Some (Failure message)\<rparr>, calls)
           | (Inr translations, calls) \<Rightarrow>
               (\<lparr>res_status = 200,
                 res_json = Some (Success
                   (map (translated_or_original translations)
                        (zip ts [0..<length ts])))\<rparr>, calls)))"
  by (simp add: handler_def)


text \<open>
  C8. A translation request whose body lacks the texts list, holds an empty list or more
  than 50 texts, or lacks a language code is answered with a structured failure
  \<^verbatim>\<open>{ success: false, error }\<close> and never reaches the provider. A translation request is
  a request of any method but \<^verbatim>\<open>OPTIONS\<close>: the CORS preflight is answered before the handler
  looks at the body, and it reaches the provider no more than the others.
\<close>

theorem invalid_request_rejected:
  "invalid_request req \<Longrightarrow>
     snd (handler env req) = []
     \<and> (req_method req \<noteq> ''OPTIONS'' \<longrightarrow> structured_failure (fst (handler env req)))"
proof (cases "req_method req = ''POST''")
  case False
  then show ?thesis by (rule handler_not_post)
next
  case post: True
  assume invalid: "invalid_request req"
  show ?thesis
  proof (cases "body req")
    case None
    with post handler_post_no_body show ?thesis by blast
  next
    case (Some b)
    show ?thesis
    proof (cases "req_texts b")
      case None
      with post Some show ?thesis
        by (simp only: handler_post_no_texts bad_request_failure) simp
    next
      case ts: (Some ts)
      from invalid Some ts
      have "ts = [] \<or> length ts > 50 \<or> req_sourceLang b = None \<or> req_targetLang b = None"
        by (simp add: invalid_request_def)
      then have "length ts = 0 \<or> length ts > 50
                   \<or> falsy (req_sourceLang b) \<or> falsy (req_targetLang b)"
        by (auto simp: falsy_def)
      then have "\<exists>msg. handler env req = bad_request msg"
        unfolding handler_post_texts[OF post Some ts] by auto
      then show ?thesis
        using bad_request_failure by auto
    qed
  qed
qed


theorem invalid_request_rejected_witness:
  "invalid_request \<lparr>req_method = ''POST'',
       body = Some \<lparr>req_texts = Some [], req_sourceLang = Some ''en'', req_targetLang = Some ''ko''\<rparr>\<rparr>
   \<and> snd (handler \<lparr>DEEPSEEK_API_KEY = Some ''key'', fetch = (\<lambda>c. Parsed (Some (call_texts c)))\<rparr>
        \<lparr>req_method = ''POST'',
         body = Some \<lparr>req_texts = Some [], req_sourceLang = Some ''en'', req_targetLang = Some ''ko''\<rparr>\<rparr>)
       = []
   \<and> structured_failure
       (fst (handler \<lparr>DEEPSEEK_API_KEY = Some ''key'', fetch = (\<lambda>c. Parsed (Some (call_texts c)))\<rparr>
        \<lparr>req_method = ''POST'',
         body = Some \<lparr>req_texts = Some [], req_sourceLang = Some ''en'', req_targetLang = Some ''ko''\<rparr>\<rparr>))"
proof -
  let ?req = "\<lparr>req_method = ''POST'',
       body = Some \<lparr>req_texts = Some [], req_sourceLang = Some ''en'', req_targetLang = Some ''ko''\<rparr>\<rparr>"
  let ?env = "\<lparr>DEEPSEEK_API_KEY = Some ''key'', fetch = (\<lambda>c. Parsed (Some (call_texts c)))\<rparr>"
  have invalid: "invalid_request ?req"
    by (simp add: invalid_request_def)
  have post: "req_method ?req \<noteq> ''OPTIONS''"
    by simp
  from invalid_request_rejected [OF invalid, of ?env] post invalid show ?thesis
    by blast
qed


lemma map_original_translated_or_original:
  "map original (map (translated_or_original translations) (zip ts [0..<length ts])) = ts"
proof -
  have "map original (map (translated_or_original translations) (zip ts [0..<length ts]))
          = map fst (zip ts [0..<length ts])"
    by (simp add: translated_or_original_def split_def comp_def)
  then show ?thesis by simp
qed

lemma handler_success:
  assumes "res_json (fst (handler env req)) = Some (Success entries)"
  shows "\<exists>b ts src tgt translations.
           body req = Some b \<and> req_texts b = Some ts
           \<and> req_sourceLang b = Some src \<and> req_targetLang b = Some tgt
           \<and> fst (translateWithDeepSeek env ts src tgt) = Inr translations
           \<and> entries = map (translated_or_original translations) (zip ts [0..<length ts])"
proof -
  have post: "req_method req = ''POST''"
  proof (rule ccontr)
    assume "req_method req \<noteq> ''POST''"
    with assms show False by (simp add: handler_def split: if_splits)
  qed
  from assms post obtain b where b: "body req = Some b"
    by (cases "body req") (simp_all add: handler_def)
  from assms post b obtain ts where ts: "req_texts b = Some ts"
    by (cases "req_texts b") (simp_all add: handler_post_no_texts bad_request_def)
  note h = handler_post_texts[OF post b ts, of env]
  from assms have valid: "length ts \<noteq> 0" "\<not> length ts > 50"
      "\<not> falsy (req_sourceLang b)" "\<not> falsy (req_targetLang b)"
    unfolding h by (auto simp: bad_request_def split: if_splits)
  from valid obtain src tgt where langs: "req_sourceLang b = Some src" "req_targetLang b = Some tgt"
    by (auto simp: falsy_def split: option.splits)
  obtain r calls where r: "translateWithDeepSeek env ts src tgt = (r, calls)"
    by (cases "translateWithDeepSeek env ts src tgt")
  from assms valid langs r obtain trs where
      "r = Inr trs"
      "entries = map (translated_or_original trs) (zip ts [0..<length ts])"
    unfolding h by (cases r) simp_all
  with b ts langs r show ?thesis
    by simp
qed

text \<open>
  C10. A successful response carries one entry per input text, in input order, each with
  the input text as its \<^verbatim>\<open>original\<close>; where the provider returned fewer translations than
  texts, the entries beyond them echo the original as the translation.
\<close>

theorem handler_success_data:
  assumes "res_json (fst (handler env req)) = Some (Success entries)"
  shows "\<exists>b ts src tgt translations.
           body req = Some b \<and> req_texts b = Some ts
           \<and> req_sourceLang b = Some src \<and> req_targetLang b = Some tgt
           \<and> fst (translateWithDeepSeek env ts src tgt) = Inr translations
           \<and> length entries = length ts
           \<and> map original entries = ts
           \<and> (\<forall>i. length translations \<le> i \<and> i < length ts \<longrightarrow> translated (entries ! i) = ts ! i)"
proof -
  from handler_success[OF assms] obtain b ts src tgt trs where
      req: "body req = Some b" "req_texts b = Some ts"
           "req_sourceLang b = Some src" "req_targetLang b = Some tgt"
           "fst (translateWithDeepSeek env ts src tgt) = Inr trs"
      and entries: "entries = map (translated_or_original trs) (zip ts [0..<length ts])"
    by blast
  have "length entries = length ts"
    by (simp add: entries)
  moreover have "map original entries = ts"
    unfolding entries by (rule map_original_translated_or_original)
  moreover have "translated (entries ! i) = ts ! i" if "length trs \<le> i \<and> i < length ts" for i
    using that unfolding entries by (simp add: translated_or_original_def js_index_def)
  ultimately show ?thesis
    using req by blast
qed

theorem handler_success_data_witness:
  "res_json (fst (handler
      \<lparr>DEEPSEEK_API_KEY = Some ''key'', fetch = (\<lambda>c. Parsed (Some [[0xC548, 0xB155]]))\<rparr>
      \<lparr>req_method = ''POST'',
       body = Some \<lparr>req_texts = Some [[0x48, 0x69], [0x4F, 0x4B]],
                    req_sourceLang = Some ''en'', req_targetLang = Some ''ko''\<rparr>\<rparr>))
     = Some (Success [\<lparr>original = [0x48, 0x69], translated = [0xC548, 0xB155]\<rparr>,
                      \<lparr>original = [0x4F, 0x4B], translated = [0x4F, 0x4B]\<rparr>])
   \<and> map original [\<lparr>original = [0x48, 0x69], translated = [0xC548, 0xB155 :: 16 word]\<rparr>,
                    \<lparr>original = [0x4F, 0x4B], translated = [0x4F, 0x4B]\<rparr>]
       = [[0x48, 0x69], [0x4F, 0x4B]]"
proof -
  let ?env = "\<lparr>DEEPSEEK_API_KEY = Some ''key'', fetch = (\<lambda>c. Parsed (Some [[0xC548, 0xB155]]))\<rparr>"
  let ?req = "\<lparr>req_method = ''POST'',
       body = Some \<lparr>req_texts = Some [[0x48, 0x69], [0x4F, 0x4B]],
                    req_sourceLang = Some ''en'', req_targetLang = Some ''ko''\<rparr>\<rparr>"
  let ?data = "[\<lparr>original = [0x48, 0x69], translated = [0xC548, 0xB155 :: 16 word]\<rparr>,
                \<lparr>original = [0x4F, 0x4B], translated = [0x4F, 0x4B]\<rparr>]"
  have success: "res_json (fst (handler ?env ?req)) = Some (Success ?data)"
    by (simp add: handler_def falsy_def translateWithDeepSeek_def translated_or_original_def
          js_index_def upt_rec)
  from handler_success_data[OF success] obtain b ts where
      "body ?req = Some b" "req_texts b = Some ts" "map original ?data = ts"
    by blast
  then have "map original ?data = [[0x48, 0x69], [0x4F, 0x4B]]"
    by simp
  with success show ?thesis
    by blast
qed

subsection \<open>Text extraction\<close>

lemma visitTextNode_yield:
  "visitTextNode parent textNode textContent = yield eligible (textNode, textContent, parent)"
proof (cases parent)
  case None
  then show ?thesis
    by (simp add: visitTextNode_def yield_def)
next
  case (Some p)
  have nonempty: "MIN_TEXT_LENGTH \<le> length (js_trim textContent) \<Longrightarrow> js_trim textContent \<noteq> []"
    by (auto simp: MIN_TEXT_LENGTH_def)
  have kind: "(interface p = HTMLInputElement \<or> interface p = HTMLTextAreaElement
                \<or> interface p = HTMLSelectElement) = (interface p \<noteq> OtherElement)"
    by (cases "interface p") simp_all
  show ?thesis
    unfolding Some visitTextNode_def yield_def filterTextNode_def eligible_def
      isNonTranslatable_def isElementVisible_def Let_def kind
    using nonempty
    by (cases "interface p") (auto simp: not_less not_le)
qed

lemma concat_map_concat_map:
  "concat (map (\<lambda>x. concat (map f (g x))) xs) = concat (map f (concat (map g xs)))"
  by (induction xs) simp_all

lemma walk_yield:
  "walk parent n = concat (map (yield eligible) (textNodesOf parent n))"
proof (induction n arbitrary: parent)
  case (TextNode textNode textContent)
  show ?case
    by (simp add: visitTextNode_yield)
next
  case (ElementNode e children shadow)
  have "map (walk (Some e)) children
          = map (\<lambda>c. concat (map (yield eligible) (textNodesOf (Some e) c))) children"
    using ElementNode.IH(1) by (intro map_cong refl) blast
  then show ?case
    by (simp only: walk.simps textNodesOf.simps concat_map_concat_map)
qed

lemma walk_children_yield:
  "concat (map (walk parent) children)
     = concat (map (yield eligible) (concat (map (textNodesOf parent) children)))"
proof -
  have "map (walk parent) children
          = map (\<lambda>c. concat (map (yield eligible) (textNodesOf parent c))) children"
    by (intro map_cong refl walk_yield)
  then show ?thesis
    by (simp only: concat_map_concat_map)
qed

lemma extractFromNode_yield:
  "extractFromNode parent children
     = concat (map (yield eligible) (allTextNodesFrom parent children))"
proof (induction parent children rule: allTextNodesFrom.induct)
  case (1 parent children)
  have "map (extractFromNode None) (concat (map shadowRoots children))
          = map (\<lambda>sr. concat (map (yield eligible) (allTextNodesFrom None sr)))
              (concat (map shadowRoots children))"
    using "1.IH" by (intro map_cong refl) blast
  then have "extractFromShadowRoots children
          = concat (map (yield eligible)
              (concat (map (allTextNodesFrom None) (concat (map shadowRoots children)))))"
    by (simp only: extractFromShadowRoots.simps concat_map_concat_map)
  then show ?case
    by (subst extractFromNode.simps, subst allTextNodesFrom.simps)
       (simp only: walk_children_yield map_append concat_append)
qed

text \<open>
  C7 (amended). Extraction yields exactly the text nodes that have a parent element and
  pass every filter: the parent's tag is not in the skip set and the parent is neither
  editable nor an input, textarea or select; the trimmed text has between 2 and 5000 code
  units; the parent is not hidden by its computed style and its bounding rectangle is not
  0 by 0 (width and height both zero); and at least 0.3 of the trimmed text are Latin or
  Hangul letters.
\<close>

theorem extractTextNodes_eligible:
  "extractTextNodes rootNode = concat (map (yield eligible) (allTextNodes rootNode))"
  by (cases rootNode) (simp_all add: extractTextNodes_def allTextNodes_def extractFromNode_yield)


theorem extractTextNodes_eligible_witness:
  "extractTextNodes
     (ElementRoot (\<lparr>tagName = ''DIV'', isContentEditable = False, interface = OtherElement,
        style_display = ''block'', style_visibility = ''visible'', style_opacity = ''1'',
        rect_top = 0, rect_bottom = 20, rect_left = 0, rect_right = 100,
        rect_width = 100, rect_height = 20\<rparr>)
        [TextNode 1 [0x20, 0x48, 0x65, 0x6C, 0x6C, 0x6F, 0x0A],
         ElementNode (\<lparr>tagName = ''CODE'', isContentEditable = False, interface = OtherElement,
        style_display = ''inline'', style_visibility = ''visible'', style_opacity = ''1'',
        rect_top = 0, rect_bottom = 20, rect_left = 0, rect_right = 100,
        rect_width = 100, rect_height = 20\<rparr>) [TextNode 2 [0x78, 0x3D, 0x79]] None,
         ElementNode (\<lparr>tagName = ''DIV'', isContentEditable = False, interface = OtherElement,
        style_display = ''block'', style_visibility = ''visible'', style_opacity = ''1'',
        rect_top = 0, rect_bottom = 20, rect_left = 0, rect_right = 100,
        rect_width = 100, rect_height = 20\<rparr>) [TextNode 3 [0x31, 0x32, 0x33]]
           (Some [TextNode 4 [0x48, 0x69], ElementNode (\<lparr>tagName = ''DIV'', isContentEditable = False, interface = OtherElement,
        style_display = ''block'', style_visibility = ''visible'', style_opacity = ''1'',
        rect_top = 0, rect_bottom = 20, rect_left = 0, rect_right = 100,
        rect_width = 100, rect_height = 20\<rparr>) [TextNode 5 [0x48, 0x69]] None])])
   = [\<lparr>node = 1, originalText = [0x48, 0x65, 0x6C, 0x6C, 0x6F], parentElement = (\<lparr>tagName = ''DIV'', isContentEditable = False, interface = OtherElement,
        style_display = ''block'', style_visibility = ''visible'', style_opacity = ''1'',
        rect_top = 0, rect_bottom = 20, rect_left = 0, rect_right = 100,
        rect_width = 100, rect_height = 20\<rparr>)\<rparr>,
      \<lparr>node = 5, originalText = [0x48, 0x69], parentElement = (\<lparr>tagName = ''DIV'', isContentEditable = False, interface = OtherElement,
        style_display = ''block'', style_visibility = ''visible'', style_opacity = ''1'',
        rect_top = 0, rect_bottom = 20, rect_left = 0, rect_right = 100,
        rect_width = 100, rect_height = 20\<rparr>)\<rparr>]"
proof -
  let ?tree = "ElementRoot (\<lparr>tagName = ''DIV'', isContentEditable = False, interface = OtherElement,
        style_display = ''block'', style_visibility = ''visible'', style_opacity = ''1'',
        rect_top = 0, rect_bottom = 20, rect_left = 0, rect_right = 100,
        rect_width = 100, rect_height = 20\<rparr>)
        [TextNode 1 [0x20, 0x48, 0x65, 0x6C, 0x6C, 0x6F, 0x0A],
         ElementNode (\<lparr>tagName = ''CODE'', isContentEditable = False, interface = OtherElement,
        style_display = ''inline'', style_visibility = ''visible'', style_opacity = ''1'',
        rect_top = 0, rect_bottom = 20, rect_left = 0, rect_right = 100,
        rect_width = 100, rect_height = 20\<rparr>) [TextNode 2 [0x78, 0x3D, 0x79]] None,
         ElementNode (\<lparr>tagName = ''DIV'', isContentEditable = False, interface = OtherElement,
        style_display = ''block'', style_visibility = ''visible'', style_opacity = ''1'',
        rect_top = 0, rect_bottom = 20, rect_left = 0, rect_right = 100,
        rect_width = 100, rect_height = 20\<rparr>) [TextNode 3 [0x31, 0x32, 0x33]]
           (Some [TextNode 4 [0x48, 0x69], ElementNode (\<lparr>tagName = ''DIV'', isContentEditable = False, interface = OtherElement,
        style_display = ''block'', style_visibility = ''visible'', style_opacity = ''1'',
        rect_top = 0, rect_bottom = 20, rect_left = 0, rect_right = 100,
        rect_width = 100, rect_height = 20\<rparr>) [TextNode 5 [0x48, 0x69]] None])]"
  have nodes: "allTextNodes ?tree =
      [(1, [0x20, 0x48, 0x65, 0x6C, 0x6C, 0x6F, 0x0A], Some (\<lparr>tagName = ''DIV'', isContentEditable = False, interface = OtherElement,
        style_display = ''block'', style_visibility = ''visible'', style_opacity = ''1'',
        rect_top = 0, rect_bottom = 20, rect_left = 0, rect_right = 100,
        rect_width = 100, rect_height = 20\<rparr>)),
       (2, [0x78, 0x3D, 0x79], Some (\<lparr>tagName = ''CODE'', isContentEditable = False, interface = OtherElement,
        style_display = ''inline'', style_visibility = ''visible'', style_opacity = ''1'',
        rect_top = 0, rect_bottom = 20, rect_left = 0, rect_right = 100,
        rect_width = 100, rect_height = 20\<rparr>)),
       (3, [0x31, 0x32, 0x33], Some (\<lparr>tagName = ''DIV'', isContentEditable = False, interface = OtherElement,
        style_display = ''block'', style_visibility = ''visible'', style_opacity = ''1'',
        rect_top = 0, rect_bottom = 20, rect_left = 0, rect_right = 100,
        rect_width = 100, rect_height = 20\<rparr>)),
       (4, [0x48, 0x69], None),
       (5, [0x48, 0x69], Some (\<lparr>tagName = ''DIV'', isContentEditable = False, interface = OtherElement,
        style_display = ''block'', style_visibility = ''visible'', style_opacity = ''1'',
        rect_top = 0, rect_bottom = 20, rect_left = 0, rect_right = 100,
        rect_width = 100, rect_height = 20\<rparr>))]"
    by (simp add: allTextNodes_def allTextNodesFrom.simps)
  have "concat (map (yield eligible) (allTextNodes ?tree))
     = [\<lparr>node = 1, originalText = [0x48, 0x65, 0x6C, 0x6C, 0x6F], parentElement = (\<lparr>tagName = ''DIV'', isContentEditable = False, interface = OtherElement,
        style_display = ''block'', style_visibility = ''visible'', style_opacity = ''1'',
        rect_top = 0, rect_bottom = 20, rect_left = 0, rect_right = 100,
        rect_width = 100, rect_height = 20\<rparr>)\<rparr>,
        \<lparr>node = 5, originalText = [0x48, 0x69], parentElement = (\<lparr>tagName = ''DIV'', isContentEditable = False, interface = OtherElement,
        style_display = ''block'', style_visibility = ''visible'', style_opacity = ''1'',
        rect_top = 0, rect_bottom = 20, rect_left = 0, rect_right = 100,
        rect_width = 100, rect_height = 20\<rparr>)\<rparr>]"
    unfolding nodes
    by (simp add: yield_def eligible_def js_trim_def js_whitespace_def SKIP_TAGS_def
          MIN_TEXT_LENGTH_def MAX_TEXT_LENGTH_def match_count_def re_letter_def
          re_ascii_letter_def re_hangul_def)
  with extractTextNodes_eligible [of ?tree] show ?thesis
    by (simp only:)
qed

text \<open>
  C7 as stated, with a parent that must not occupy zero screen area, fails for a parent
  whose rectangle is 0 wide and 20 high: its area is zero, and its text is extracted.
\<close>

theorem zero_width_parent_extracted:
  "extractTextNodes (ElementRoot (\<lparr>tagName = ''DIV'', isContentEditable = False, interface = OtherElement,
        style_display = ''block'', style_visibility = ''visible'', style_opacity = ''1'',
        rect_top = 0, rect_bottom = 20, rect_left = 0, rect_right = 0,
        rect_width = 0, rect_height = 20\<rparr>) [TextNode 1 [0x48, 0x65, 0x6C, 0x6C, 0x6F]])
     = [\<lparr>node = 1, originalText = [0x48, 0x65, 0x6C, 0x6C, 0x6F], parentElement = (\<lparr>tagName = ''DIV'', isContentEditable = False, interface = OtherElement,
        style_display = ''block'', style_visibility = ''visible'', style_opacity = ''1'',
        rect_top = 0, rect_bottom = 20, rect_left = 0, rect_right = 0,
        rect_width = 0, rect_height = 20\<rparr>)\<rparr>]
   \<and> rect_width (\<lparr>tagName = ''DIV'', isContentEditable = False, interface = OtherElement,
        style_display = ''block'', style_visibility = ''visible'', style_opacity = ''1'',
        rect_top = 0, rect_bottom = 20, rect_left = 0, rect_right = 0,
        rect_width = 0, rect_height = 20\<rparr>) * rect_height (\<lparr>tagName = ''DIV'', isContentEditable = False, interface = OtherElement,
        style_display = ''block'', style_visibility = ''visible'', style_opacity = ''1'',
        rect_top = 0, rect_bottom = 20, rect_left = 0, rect_right = 0,
        rect_width = 0, rect_height = 20\<rparr>) = 0
   \<and> concat (map (yield eligible_spec)
         (allTextNodes (ElementRoot (\<lparr>tagName = ''DIV'', isContentEditable = False, interface = OtherElement,
        style_display = ''block'', style_visibility = ''visible'', style_opacity = ''1'',
        rect_top = 0, rect_bottom = 20, rect_left = 0, rect_right = 0,
        rect_width = 0, rect_height = 20\<rparr>) [TextNode 1 [0x48, 0x65, 0x6C, 0x6C, 0x6F]]))) = []"
  by (simp add: extractTextNodes_def extractFromNode.simps extractFromShadowRoots.simps
        allTextNodes_def allTextNodesFrom.simps
        visitTextNode_def filterTextNode_def isNonTranslatable_def isElementVisible_def
        yield_def eligible_spec_def js_trim_def js_whitespace_def SKIP_TAGS_def
        MIN_TEXT_LENGTH_def MAX_TEXT_LENGTH_def match_count_def re_letter_def
        re_ascii_letter_def re_hangul_def)

subsection \<open>Which fields each operation of the content script touches\<close>

lemma finally_block_frame:
  "isEnabled (finally_block i s) = isEnabled s"
  "settings (finally_block i s) = settings s"
  "translationCache (finally_block i s) = translationCache s"
  "domTranslator (finally_block i s) = domTranslator s"
  "clock (finally_block i s) = clock s"
  "sent (finally_block i s) = sent s"
  by (simp_all add: finally_block_def Let_def)

lemma finally_block_invocations:
  "invocations (finally_block i s) = (invocations s)[i := (invocations s ! i)\<lparr>inv_running := False\<rparr>]"
  "translatingNodes (finally_block i s)
     = translatingNodes s - node ` set (inv_newNodes (invocations s ! i))"
  by (simp_all add: finally_block_def Let_def)

lemma window_loop_frame:
  "isEnabled (window_loop i s) = isEnabled s"
  "settings (window_loop i s) = settings s"
  "translationCache (window_loop i s) = translationCache s"
  "domTranslator (window_loop i s) = domTranslator s"
  "clock (window_loop i s) = clock s"
  by (simp_all add: window_loop_def finally_block_def Let_def)

lemma window_loop_done:
  "inv_batches (invocations s ! i) = [] \<Longrightarrow> window_loop i s = finally_block i s"
  by (simp add: window_loop_def Let_def)

lemma window_loop_more:
  assumes "inv_batches (invocations s ! i) \<noteq> []"
  shows "invocations (window_loop i s) = (invocations s)
           [i := (invocations s ! i)
              \<lparr>inv_batches := drop MAX_CONCURRENT_REQUESTS (inv_batches (invocations s ! i)),
               inv_window := take MAX_CONCURRENT_REQUESTS (inv_batches (invocations s ! i))\<rparr>]"
    and "translatingNodes (window_loop i s) = translatingNodes s"
    and "sent (window_loop i s) = sent s @
           map (\<lambda>b. (i, batch_payload (settings s) b))
               (take MAX_CONCURRENT_REQUESTS (inv_batches (invocations s ! i)))"
  using assms by (simp_all add: window_loop_def Let_def)

lemma translateBatch_resume_frame:
  "isEnabled (translateBatch_resume b response s) = isEnabled s"
  "settings (translateBatch_resume b response s) = settings s"
  "translatingNodes (translateBatch_resume b response s) = translatingNodes s"
  "clock (translateBatch_resume b response s) = clock s"
  "invocations (translateBatch_resume b response s) = invocations s"
  "sent (translateBatch_resume b response s) = sent s"
  by (simp_all add: translateBatch_resume_def Let_def split: option.splits)

lemma translateBatch_resume_disabled:
  "\<not> isEnabled s \<Longrightarrow> domTranslator (translateBatch_resume b response s) = domTranslator s"
  by (simp add: translateBatch_resume_def Let_def split: option.splits)

lemma translateBatch_resume_domTranslator:
  "domTranslator (translateBatch_resume b response s) = domTranslator s
   \<or> (\<exists>units results.
         domTranslator (translateBatch_resume b response s)
           = applyTranslations (domTranslator s) units results)"
  by (auto simp: translateBatch_resume_def Let_def split: option.splits)

lemma call_settled_frame:
  "isEnabled (call_settled i j s) = isEnabled s"
  "settings (call_settled i j s) = settings s"
  "translatingNodes (call_settled i j s) = translatingNodes s"
  "translationCache (call_settled i j s) = translationCache s"
  "domTranslator (call_settled i j s) = domTranslator s"
  "clock (call_settled i j s) = clock s"
  "sent (call_settled i j s) = sent s"
  by (simp_all add: call_settled_def Let_def)

lemma call_settled_invocations:
  "invocations (call_settled i j s) = (invocations s)
     [i := (invocations s ! i)
        \<lparr>inv_window := take j (inv_window (invocations s ! i))
                         @ drop (Suc j) (inv_window (invocations s ! i))\<rparr>]"
  by (simp add: call_settled_def Let_def)

lemma settle_noop:
  "\<not> (i < length (invocations s) \<and> j < length (inv_window (invocations s ! i))) \<Longrightarrow>
     settle i j outcome s = s"
  by (simp only: settle_def if_False)

lemma settle_resolved:
  assumes "i < length (invocations s)" and "j < length (inv_window (invocations s ! i))"
  shows "settle i j (Resolved response) s =
    (if inv_running (invocations s ! i) \<and> inv_window (invocations (call_settled i j s) ! i) = []
     then window_loop i
            (translateBatch_resume (inv_window (invocations s ! i) ! j) response (call_settled i j s))
     else translateBatch_resume (inv_window (invocations s ! i) ! j) response (call_settled i j s))"
  using assms
  by (simp only: settle_def Let_def if_True simp_thms settled.case translateBatch_resume_frame)

lemma settle_rejected:
  assumes "i < length (invocations s)" and "j < length (inv_window (invocations s ! i))"
  shows "settle i j Rejected s =
    (if inv_running (invocations s ! i) then finally_block i (call_settled i j s)
     else call_settled i j s)"
  using assms
  by (simp only: settle_def Let_def if_True simp_thms settled.case)

lemma admitted_fresh:
  "node ` set (admitted s textNodes) \<inter> translatingNodes s = {}"
  by (auto simp: admitted_def)

lemma translateNodesParallel_cases:
  obtains
    (skipped) "admitted s textNodes = []" "translateNodesParallel textNodes s = s"
  | (cached) dt cached where "admitted s textNodes \<noteq> []"
      "getMultiple (clock s) (translationCache s) (map originalText (admitted s textNodes))
         (sourceLang (settings s)) (targetLang (settings s)) = (cached, [])"
      "translateNodesParallel textNodes s = s\<lparr>domTranslator := dt\<rparr>"
      "\<not> isEnabled s \<Longrightarrow> dt = domTranslator s"
      "dt = domTranslator s \<or> (\<exists>units results. dt = applyTranslations (domTranslator s) units results)"
  | (requested) dt cached uncached where "admitted s textNodes \<noteq> []" "uncached \<noteq> []"
      "getMultiple (clock s) (translationCache s) (map originalText (admitted s textNodes))
         (sourceLang (settings s)) (targetLang (settings s)) = (cached, uncached)"
      "translateNodesParallel textNodes s =
         window_loop (length (invocations s))
           (s\<lparr>translatingNodes := translatingNodes s \<union> node ` set (admitted s textNodes),
              domTranslator := dt,
              invocations := invocations s @
                [\<lparr>inv_newNodes = admitted s textNodes,
                  inv_batches = make_batches (admitted s textNodes) uncached 0,
                  inv_window = [], inv_running = True,
                  inv_sourceLang = sourceLang (settings s)\<rparr>]\<rparr>)"
      "\<not> isEnabled s \<Longrightarrow> dt = domTranslator s"
      "dt = domTranslator s \<or> (\<exists>units results. dt = applyTranslations (domTranslator s) units results)"
proof (cases "admitted s textNodes = []")
  case True
  then have "translateNodesParallel textNodes s = s"
    by (simp add: translateNodesParallel_def)
  with True show ?thesis by (rule skipped)
next
  case False
  let ?N = "admitted s textNodes"
  obtain c u where cu:
    "getMultiple (clock s) (translationCache s) (map originalText ?N)
         (sourceLang (settings s)) (targetLang (settings s)) = (c, u)"
    by (cases "getMultiple (clock s) (translationCache s) (map originalText ?N)
         (sourceLang (settings s)) (targetLang (settings s))")
  let ?dt = "if length c > 0 \<and> isEnabled s
             then applyTranslations (domTranslator s) (map (\<lambda>(i, t). js_index ?N i) c)
                    (map (\<lambda>(i, t). \<lparr>original = map originalText ?N ! i, translated = t\<rparr>) c)
             else domTranslator s"
  have dt1: "\<not> isEnabled s \<Longrightarrow> ?dt = domTranslator s"
    by simp
  have dt2: "?dt = domTranslator s \<or> (\<exists>units results. ?dt = applyTranslations (domTranslator s) units results)"
    by auto
  have fresh: "translatingNodes s \<union> node ` set ?N - node ` set ?N = translatingNodes s"
    using admitted_fresh[of s textNodes] by auto
  show ?thesis
  proof (cases "u = []")
    case True
    have "translateNodesParallel textNodes s = s\<lparr>domTranslator := ?dt\<rparr>"
      using False True cu fresh by (simp add: translateNodesParallel_def Let_def)
    with False cu[unfolded True] show ?thesis
      using dt1 dt2 by (rule cached)
  next
    case more: False
    have "translateNodesParallel textNodes s =
         window_loop (length (invocations s))
           (s\<lparr>translatingNodes := translatingNodes s \<union> node ` set ?N,
              domTranslator := ?dt,
              invocations := invocations s @
                [\<lparr>inv_newNodes = ?N, inv_batches = make_batches ?N u 0,
                  inv_window = [], inv_running = True,
                  inv_sourceLang = sourceLang (settings s)\<rparr>]\<rparr>)"
      using False more cu by (simp add: translateNodesParallel_def Let_def)
    with False more cu show ?thesis
      using dt1 dt2 by (rule requested)
  qed
qed

text \<open>
  A property of the state that \<^verbatim>\<open>translateNodesParallel\<close> keeps is kept by a flush, which
  calls it once for every pending root.
\<close>

lemma flush_induct:
  assumes "P s" and "\<And>s' textNodes. P s' \<Longrightarrow> P (translateNodesParallel textNodes s')"
  shows "P (flush nodesToProcess s)"
  using assms(1) unfolding flush_def
proof (induction nodesToProcess arbitrary: s)
  case Nil
  then show ?case by simp
next
  case (Cons n rest)
  have "P (let textNodes = extractTextNodes n
           in if length textNodes > 0 then translateNodesParallel textNodes s else s)"
    using Cons.prems assms(2) by (simp add: Let_def)
  from Cons.IH[OF this] show ?case
    by simp
qed

lemma enable_cases:
  "enable body' window s = s
   \<or> enable body' window s = s\<lparr>isEnabled := True\<rparr>
   \<or> (\<exists>textNodes. enable body' window s = translateNodesParallel textNodes (s\<lparr>isEnabled := True\<rparr>))"
  by (auto simp: enable_def translateVisibleContent_def Let_def)

subsection \<open>A disabled pipeline leaves the document alone\<close>

lemma settle_isEnabled: "isEnabled (settle i j outcome s) = isEnabled s"
proof (cases "i < length (invocations s) \<and> j < length (inv_window (invocations s ! i))")
  case False
  from settle_noop[OF False] show ?thesis by simp
next
  case True
  then show ?thesis
    by (cases outcome)
       (simp_all add: settle_resolved settle_rejected window_loop_frame finally_block_frame
          translateBatch_resume_frame call_settled_frame)
qed

lemma settle_disabled:
  assumes "\<not> isEnabled s"
  shows "domTranslator (settle i j outcome s) = domTranslator s"
proof (cases "i < length (invocations s) \<and> j < length (inv_window (invocations s ! i))")
  case False
  from settle_noop[OF False] show ?thesis by simp
next
  case True
  from assms have "\<not> isEnabled (call_settled i j s)"
    by (simp add: call_settled_frame)
  then have "domTranslator (translateBatch_resume b response (call_settled i j s)) = domTranslator s"
    for b response
    by (simp add: translateBatch_resume_disabled call_settled_frame)
  with True show ?thesis
    by (cases outcome)
       (simp_all add: settle_resolved settle_rejected window_loop_frame finally_block_frame
          call_settled_frame)
qed

lemma translateNodesParallel_isEnabled:
  "isEnabled (translateNodesParallel textNodes s) = isEnabled s"
  by (cases rule: translateNodesParallel_cases[of s textNodes]) (simp_all add: window_loop_frame)

lemma translateNodesParallel_disabled:
  "\<not> isEnabled s \<Longrightarrow> domTranslator (translateNodesParallel textNodes s) = domTranslator s"
  by (cases rule: translateNodesParallel_cases[of s textNodes]) (simp_all add: window_loop_frame)

lemma flush_disabled:
  assumes "\<not> isEnabled s"
  shows "\<not> isEnabled (flush nodesToProcess s) \<and> domTranslator (flush nodesToProcess s) = domTranslator s"
  by (rule flush_induct[where P = "\<lambda>s'. \<not> isEnabled s' \<and> domTranslator s' = domTranslator s"])
     (simp_all add: assms translateNodesParallel_isEnabled translateNodesParallel_disabled)

lemma step_disabled:
  "\<not> isEnabled s \<Longrightarrow> \<not> is_Enable e \<Longrightarrow>
     \<not> isEnabled (step s e) \<and> domTranslator (step s e) = domTranslator s"
  by (cases e) (simp_all add: disable_def flush_disabled settle_isEnabled settle_disabled)

lemma run_disabled:
  "\<not> isEnabled s \<Longrightarrow> list_all (\<lambda>e. \<not> is_Enable e) events \<Longrightarrow>
     \<not> isEnabled (run s events) \<and> domTranslator (run s events) = domTranslator s"
  unfolding run_def
proof (induction events arbitrary: s)
  case Nil
  then show ?case by simp
next
  case (Cons e events)
  from Cons.prems step_disabled[of s e]
  have "\<not> isEnabled (step s e)" "domTranslator (step s e) = domTranslator s"
    by simp_all
  with Cons.IH[of "step s e"] Cons.prems show ?case
    by simp
qed

lemma disable_disabled: "\<not> isEnabled (disable s)"
  by (simp add: disable_def)

subsection \<open>At most six outstanding messages per call\<close>

lemma list_all_update:
  assumes "list_all P xs" and "i < length xs \<Longrightarrow> P x"
  shows "list_all P (xs[i := x])"
  unfolding list_all_length
proof (intro allI impI)
  fix n assume "n < length (xs[i := x])"
  with assms show "P (xs[i := x] ! n)"
    by (cases "n = i") (simp_all add: list_all_length)
qed

lemma window_bounded_nth:
  "window_bounded s \<Longrightarrow> i < length (invocations s) \<Longrightarrow>
     length (inv_window (invocations s ! i)) \<le> MAX_CONCURRENT_REQUESTS"
  by (simp add: window_bounded_def list_all_length)

lemma window_bounded_invocations:
  "invocations s' = invocations s \<Longrightarrow> window_bounded s' = window_bounded s"
  by (simp add: window_bounded_def)

lemma finally_block_bounded:
  assumes "window_bounded s"
  shows "window_bounded (finally_block i s)"
proof -
  from assms have "list_all (\<lambda>inv. length (inv_window inv) \<le> MAX_CONCURRENT_REQUESTS)
      ((invocations s)[i := (invocations s ! i)\<lparr>inv_running := False\<rparr>])"
    unfolding window_bounded_def
    using window_bounded_nth[OF assms, of i]
    by (intro list_all_update) simp_all
  then show ?thesis
    by (simp only: window_bounded_def finally_block_invocations)
qed

lemma window_loop_bounded:
  assumes "window_bounded s"
  shows "window_bounded (window_loop i s)"
proof (cases "inv_batches (invocations s ! i) = []")
  case True
  with assms show ?thesis
    by (simp only: window_loop_done finally_block_bounded)
next
  case False
  from assms have "list_all (\<lambda>inv. length (inv_window inv) \<le> MAX_CONCURRENT_REQUESTS)
      ((invocations s)
           [i := (invocations s ! i)
              \<lparr>inv_batches := drop MAX_CONCURRENT_REQUESTS (inv_batches (invocations s ! i)),
               inv_window := take MAX_CONCURRENT_REQUESTS (inv_batches (invocations s ! i))\<rparr>])"
    unfolding window_bounded_def
    by (intro list_all_update) simp_all
  then show ?thesis
    by (simp only: window_bounded_def window_loop_more(1)[OF False])
qed

lemma call_settled_bounded:
  assumes "window_bounded s"
  shows "window_bounded (call_settled i j s)"
proof -
  let ?w = "inv_window (invocations s ! i)"
  have "length (take j ?w @ drop (Suc j) ?w) \<le> length ?w"
    by simp
  with window_bounded_nth[OF assms, of i]
  have "i < length (invocations s) \<Longrightarrow>
          length (take j ?w @ drop (Suc j) ?w) \<le> MAX_CONCURRENT_REQUESTS"
    by linarith
  with assms have "list_all (\<lambda>inv. length (inv_window inv) \<le> MAX_CONCURRENT_REQUESTS)
      ((invocations s)[i := (invocations s ! i)\<lparr>inv_window := take j ?w @ drop (Suc j) ?w\<rparr>])"
    unfolding window_bounded_def
    by (intro list_all_update) simp_all
  then show ?thesis
    by (simp only: window_bounded_def call_settled_invocations)
qed

lemma translateBatch_resume_bounded:
  "window_bounded s \<Longrightarrow> window_bounded (translateBatch_resume b response s)"
  by (simp add: window_bounded_invocations[OF translateBatch_resume_frame(5)])

lemma settle_bounded:
  assumes "window_bounded s"
  shows "window_bounded (settle i j outcome s)"
proof (cases "i < length (invocations s) \<and> j < length (inv_window (invocations s ! i))")
  case False
  from settle_noop[OF False] assms show ?thesis by simp
next
  case True
  note s1 = call_settled_bounded[OF assms, of i j]
  show ?thesis
  proof (cases outcome)
    case (Resolved response)
    from s1 have "window_bounded
        (translateBatch_resume (inv_window (invocations s ! i) ! j) response (call_settled i j s))"
      by (rule translateBatch_resume_bounded)
    with True Resolved show ?thesis
      by (simp add: settle_resolved window_loop_bounded)
  next
    case Rejected
    with True s1 show ?thesis
      by (simp add: settle_rejected finally_block_bounded)
  qed
qed

lemma translateNodesParallel_bounded:
  assumes "window_bounded s"
  shows "window_bounded (translateNodesParallel textNodes s)"
proof (cases rule: translateNodesParallel_cases[of s textNodes])
  case skipped
  with assms show ?thesis by simp
next
  case (cached dt c)
  with assms show ?thesis by (simp add: window_bounded_def)
next
  case (requested dt cached uncached)
  from assms show ?thesis
    unfolding requested(4)
    by (intro window_loop_bounded) (simp add: window_bounded_def)
qed

lemma step_bounded:
  assumes "window_bounded s"
  shows "window_bounded (step s e)"
proof (cases e)
  case (Enable body' window)
  from assms have "window_bounded (s\<lparr>isEnabled := True\<rparr>)"
    by (simp add: window_bounded_def)
  with assms enable_cases[of body' window s] Enable show ?thesis
    by (auto simp: translateNodesParallel_bounded)
next
  case Disable
  with assms show ?thesis by (simp add: disable_def window_bounded_def)
next
  case (Flush nodesToProcess)
  with assms show ?thesis
    by (simp add: flush_induct[where P = window_bounded] translateNodesParallel_bounded)
next
  case (Settle i j outcome)
  with assms show ?thesis by (simp add: settle_bounded)
next
  case (SettingsChanged src tgt)
  with assms show ?thesis by (simp add: window_bounded_def)
next
  case (Tick ms)
  with assms show ?thesis by (simp add: window_bounded_def)
qed

lemma run_bounded:
  "window_bounded s \<Longrightarrow> window_bounded (run s events)"
  unfolding run_def
  by (induction events arbitrary: s) (simp_all add: step_bounded)

lemma initial_bounded: "window_bounded (initial st doc)"
  by (simp add: window_bounded_def initial_def)

subsection \<open>When messages are sent\<close>

lemma sent_by_sent: "sent s' = sent s \<Longrightarrow> sent_by i s' = sent_by i s"
  by (simp add: sent_by_def)

lemma finally_block_length: "length (invocations (finally_block i s)) = length (invocations s)"
  by (simp add: finally_block_invocations)

lemma window_loop_length: "length (invocations (window_loop i s)) = length (invocations s)"
  by (cases "inv_batches (invocations s ! i) = []")
     (simp_all add: window_loop_done finally_block_length window_loop_more)

lemma window_loop_sent_by_other:
  assumes "i \<noteq> k"
  shows "sent_by i (window_loop k s) = sent_by i s"
proof (cases "inv_batches (invocations s ! k) = []")
  case True
  then show ?thesis
    by (simp add: window_loop_done sent_by_sent[OF finally_block_frame(6)])
next
  case False
  from assms show ?thesis
    unfolding sent_by_def window_loop_more(3)[OF False] by (simp add: comp_def)
qed

lemma translateNodesParallel_length:
  "length (invocations s) \<le> length (invocations (translateNodesParallel textNodes s))"
  by (cases rule: translateNodesParallel_cases[of s textNodes]) (simp_all add: window_loop_length)

lemma translateNodesParallel_sent_by:
  assumes "i < length (invocations s)"
  shows "sent_by i (translateNodesParallel textNodes s) = sent_by i s"
proof (cases rule: translateNodesParallel_cases[of s textNodes])
  case skipped
  then show ?thesis by simp
next
  case (cached dt c)
  then show ?thesis by (simp add: sent_by_def)
next
  case (requested dt cached uncached)
  from assms have "i \<noteq> length (invocations s)"
    by simp
  from window_loop_sent_by_other[OF this] show ?thesis
    unfolding requested(4) by (simp add: sent_by_def)
qed

lemma flush_sent_by:
  assumes "i < length (invocations s)"
  shows "sent_by i (flush nodesToProcess s) = sent_by i s"
proof -
  have "i < length (invocations (flush nodesToProcess s))
        \<and> sent_by i (flush nodesToProcess s) = sent_by i s"
  proof (rule flush_induct[where P = "\<lambda>s'. i < length (invocations s') \<and> sent_by i s' = sent_by i s"])
    show "i < length (invocations s) \<and> sent_by i s = sent_by i s"
      using assms by simp
  next
    fix s' textNodes
    assume "i < length (invocations s') \<and> sent_by i s' = sent_by i s"
    then show "i < length (invocations (translateNodesParallel textNodes s'))
               \<and> sent_by i (translateNodesParallel textNodes s') = sent_by i s"
      using translateNodesParallel_length[of s' textNodes]
      by (simp add: translateNodesParallel_sent_by)
  qed
  then show ?thesis ..
qed

lemma call_settled_window:
  assumes "i < length (invocations s)"
  shows "inv_window (invocations (call_settled i j s) ! i)
           = take j (inv_window (invocations s ! i)) @ drop (Suc j) (inv_window (invocations s ! i))"
  using assms by (simp add: call_settled_invocations)

lemma settle_sent_by:
  assumes "sent_by i (settle k j outcome s) \<noteq> sent_by i s"
  shows "k = i \<and> (\<exists>response. outcome = Resolved response)
         \<and> length (inv_window (invocations s ! i)) = 1"
proof (cases "k < length (invocations s) \<and> j < length (inv_window (invocations s ! k))")
  case False
  from settle_noop[OF False] assms show ?thesis by simp
next
  case True
  show ?thesis
  proof (cases outcome)
    case Rejected
    with True have "sent (settle k j outcome s) = sent s"
      by (simp add: settle_rejected finally_block_frame call_settled_frame)
    with assms show ?thesis by (simp add: sent_by_def)
  next
    case (Resolved response)
    define s2 where
      "s2 = translateBatch_resume (inv_window (invocations s ! k) ! j) response (call_settled k j s)"
    have s2: "sent_by i s2 = sent_by i s"
      by (simp add: s2_def sent_by_def translateBatch_resume_frame call_settled_frame)
    define last_one where
      "last_one \<longleftrightarrow> inv_running (invocations s ! k)
                      \<and> inv_window (invocations (call_settled k j s) ! k) = []"
    have res: "settle k j outcome s = (if last_one then window_loop k s2 else s2)"
      using True Resolved by (simp only: settle_resolved s2_def last_one_def)
    show ?thesis
    proof (cases last_one)
      case False
      with res s2 assms show ?thesis by simp
    next
      case loop: True
      have "k = i"
      proof (rule ccontr)
        assume "k \<noteq> i"
        then have "sent_by i (window_loop k s2) = sent_by i s2"
          by (intro window_loop_sent_by_other) simp
        with assms res loop s2 show False by simp
      qed
      moreover from loop True have "take j (inv_window (invocations s ! k))
            @ drop (Suc j) (inv_window (invocations s ! k)) = []"
        by (simp add: last_one_def call_settled_window)
      with True have "length (inv_window (invocations s ! k)) = 1"
        by (cases "inv_window (invocations s ! k)") (auto split: if_splits)
      ultimately show ?thesis
        using Resolved by simp
    qed
  qed
qed

lemma step_sent_by:
  assumes "i < length (invocations s)" and "sent_by i (step s e) \<noteq> sent_by i s"
  shows "(\<exists>j response. e = Settle i j (Resolved response))
         \<and> length (inv_window (invocations s ! i)) = 1"
proof (cases e)
  case (Enable body' window)
  have "sent_by i (s\<lparr>isEnabled := True\<rparr>) = sent_by i s"
    by (simp add: sent_by_def)
  moreover have "sent_by i (translateNodesParallel ns (s\<lparr>isEnabled := True\<rparr>)) = sent_by i s" for ns
    using assms(1) translateNodesParallel_sent_by[of i "s\<lparr>isEnabled := True\<rparr>" ns]
    by (simp add: sent_by_def)
  ultimately show ?thesis
    using assms(2) Enable enable_cases[of body' window s] by auto
next
  case Disable
  with assms(2) show ?thesis by (simp add: disable_def sent_by_def split: if_splits)
next
  case (Flush nodesToProcess)
  with assms flush_sent_by show ?thesis by simp
next
  case (Settle k j outcome)
  with assms(2) settle_sent_by[of i k j outcome s] show ?thesis by auto
next
  case (SettingsChanged src tgt)
  with assms(2) show ?thesis by (simp add: sent_by_def)
next
  case (Tick ms)
  with assms(2) show ?thesis by (simp add: sent_by_def)
qed

subsection \<open>A window is worked off before the next one starts\<close>

lemma settle_resolved_not_last:
  assumes "i < length (invocations s)"
    and "2 \<le> length (inv_window (invocations s ! i))"
  shows "invocations (settle i 0 (Resolved response) s)
           = (invocations s)[i := (invocations s ! i)
                \<lparr>inv_window := tl (inv_window (invocations s ! i))\<rparr>]"
proof -
  let ?w = "inv_window (invocations s ! i)"
  from assms(2) have valid: "0 < length ?w" and more: "tl ?w \<noteq> []"
    by (cases ?w; cases "tl ?w"; simp)+
  have w: "inv_window (invocations (call_settled i 0 s) ! i) = tl ?w"
    using assms(1) by (simp add: call_settled_window drop_Suc)
  have "settle i 0 (Resolved response) s
          = translateBatch_resume (?w ! 0) response (call_settled i 0 s)"
    unfolding settle_resolved[OF assms(1) valid] w using more by simp
  then show ?thesis
    by (simp add: translateBatch_resume_frame call_settled_invocations drop_Suc)
qed

lemma settle_resolved_last:
  assumes "i < length (invocations s)"
    and "length (inv_window (invocations s ! i)) = 1"
    and "inv_running (invocations s ! i)"
    and "inv_batches (invocations s ! i) \<noteq> []"
  shows "invocations (settle i 0 (Resolved response) s)
           = (invocations s)[i := (invocations s ! i)
                \<lparr>inv_batches := drop MAX_CONCURRENT_REQUESTS (inv_batches (invocations s ! i)),
                 inv_window := take MAX_CONCURRENT_REQUESTS (inv_batches (invocations s ! i))\<rparr>]"
proof -
  let ?w = "inv_window (invocations s ! i)"
  define s2 where "s2 = translateBatch_resume (?w ! 0) response (call_settled i 0 s)"
  from assms(2) have valid: "0 < length ?w" and last_one: "tl ?w = []"
    by (cases ?w; simp)+
  have w: "inv_window (invocations (call_settled i 0 s) ! i) = tl ?w"
    using assms(1) by (simp add: call_settled_window drop_Suc)
  have eq: "settle i 0 (Resolved response) s = window_loop i s2"
    unfolding settle_resolved[OF assms(1) valid] w s2_def using last_one assms(3) by simp
  have invs: "invocations s2 = (invocations s)[i := (invocations s ! i)\<lparr>inv_window := tl ?w\<rparr>]"
    by (simp add: s2_def translateBatch_resume_frame call_settled_invocations drop_Suc)
  with assms(1,4) have more: "inv_batches (invocations s2 ! i) \<noteq> []"
    by simp
  show ?thesis
    unfolding eq window_loop_more(1)[OF more] invs using assms(1) by simp
qed

lemma resolve_window:
  assumes "i < length (invocations s)"
    and "length rs < length (inv_window (invocations s ! i))"
  shows "invocations (run s (map (\<lambda>r. Settle i 0 (Resolved r)) rs))
           = (invocations s)[i := (invocations s ! i)
                \<lparr>inv_window := drop (length rs) (inv_window (invocations s ! i))\<rparr>]"
  using assms
proof (induction rs arbitrary: s)
  case Nil
  then show ?case by (simp add: run_def)
next
  case (Cons r rs)
  let ?s' = "settle i 0 (Resolved r) s"
  from Cons.prems have two: "2 \<le> length (inv_window (invocations s ! i))"
    by simp
  note first = settle_resolved_not_last[OF Cons.prems(1) two, of r]
  have len: "i < length (invocations ?s')"
    using Cons.prems(1) by (simp add: first)
  have w: "inv_window (invocations ?s' ! i) = tl (inv_window (invocations s ! i))"
    using Cons.prems(1) by (simp add: first)
  from Cons.prems(2) have "length rs < length (inv_window (invocations ?s' ! i))"
    by (simp add: w)
  from Cons.IH[OF len this]
  have "invocations (run ?s' (map (\<lambda>r. Settle i 0 (Resolved r)) rs))
          = (invocations ?s')[i := (invocations ?s' ! i)
               \<lparr>inv_window := drop (length rs) (inv_window (invocations ?s' ! i))\<rparr>]" .
  then show ?case
    using Cons.prems(1) by (simp add: run_def first drop_Suc)
qed

lemma run_append: "run s (xs @ ys) = run (run s xs) ys"
  by (simp add: run_def)

lemma window_worked_off:
  assumes i: "i < length (invocations s)"
    and running: "inv_running (invocations s ! i)"
    and window: "inv_window (invocations s ! i) \<noteq> []"
    and batches: "inv_batches (invocations s ! i) \<noteq> []"
    and rs: "length rs = length (inv_window (invocations s ! i))"
  shows "invocations (run s (map (\<lambda>r. Settle i 0 (Resolved r)) rs))
           = (invocations s)[i := (invocations s ! i)
                \<lparr>inv_batches := drop MAX_CONCURRENT_REQUESTS (inv_batches (invocations s ! i)),
                 inv_window := take MAX_CONCURRENT_REQUESTS (inv_batches (invocations s ! i))\<rparr>]"
proof -
  let ?w = "inv_window (invocations s ! i)"
  from rs window obtain rs' r where split: "rs = rs' @ [r]"
    by (cases rs rule: rev_cases) auto
  with rs have shorter: "length rs' < length ?w" and one: "length ?w - length rs' = 1"
    by simp_all
  define s' where "s' = run s (map (\<lambda>r. Settle i 0 (Resolved r)) rs')"
  have invs': "invocations s' = (invocations s)[i := (invocations s ! i)
                \<lparr>inv_window := drop (length rs') ?w\<rparr>]"
    unfolding s'_def by (rule resolve_window[OF i shorter])
  have i': "i < length (invocations s')"
    using i by (simp add: invs')
  have nth': "invocations s' ! i = (invocations s ! i)\<lparr>inv_window := drop (length rs') ?w\<rparr>"
    using i by (simp add: invs')
  have "invocations (settle i 0 (Resolved r) s')
           = (invocations s')[i := (invocations s' ! i)
                \<lparr>inv_batches := drop MAX_CONCURRENT_REQUESTS (inv_batches (invocations s' ! i)),
                 inv_window := take MAX_CONCURRENT_REQUESTS (inv_batches (invocations s' ! i))\<rparr>]"
    by (rule settle_resolved_last[OF i']) (simp_all add: nth' one running batches)
  then have "invocations (settle i 0 (Resolved r) s')
           = (invocations s)[i := (invocations s ! i)
                \<lparr>inv_batches := drop MAX_CONCURRENT_REQUESTS (inv_batches (invocations s ! i)),
                 inv_window := take MAX_CONCURRENT_REQUESTS (inv_batches (invocations s ! i))\<rparr>]"
    unfolding nth' unfolding invs' by simp
  moreover have "run s (map (\<lambda>r. Settle i 0 (Resolved r)) rs) = settle i 0 (Resolved r) s'"
    unfolding split map_append run_append s'_def[symmetric] by (simp add: run_def)
  ultimately show ?thesis
    by simp
qed

lemma make_batches_nonempty: "make_batches newNodes uncached 0 \<noteq> [] \<Longrightarrow> uncached \<noteq> []"
  by (auto simp: make_batches_done)

lemma translateNodesParallel_requested:
  assumes "admitted s textNodes \<noteq> []"
    and "getMultiple (clock s) (translationCache s) (map originalText (admitted s textNodes))
           (sourceLang (settings s)) (targetLang (settings s)) = (cached, uncached)"
    and "uncached \<noteq> []"
  shows "invocations (translateNodesParallel textNodes s) =
           invocations s @
             [\<lparr>inv_newNodes = admitted s textNodes,
               inv_batches = drop MAX_CONCURRENT_REQUESTS (make_batches (admitted s textNodes) uncached 0),
               inv_window = take MAX_CONCURRENT_REQUESTS (make_batches (admitted s textNodes) uncached 0),
               inv_running = True,
               inv_sourceLang = sourceLang (settings s)\<rparr>]"
proof (cases rule: translateNodesParallel_cases[of s textNodes])
  case skipped
  with assms(1) show ?thesis by simp
next
  case (cached dt c)
  with assms(2,3) show ?thesis
    by simp
next
  case (requested dt c u)
  from requested(3) assms(2) have u: "u = uncached"
    by simp
  let ?bs = "make_batches (admitted s textNodes) uncached 0"
  define s' where "s' = s\<lparr>translatingNodes := translatingNodes s \<union> node ` set (admitted s textNodes),
              domTranslator := dt,
              invocations := invocations s @
                [\<lparr>inv_newNodes = admitted s textNodes, inv_batches = ?bs,
                  inv_window = [], inv_running = True,
                  inv_sourceLang = sourceLang (settings s)\<rparr>]\<rparr>"
  have nonempty: "?bs \<noteq> []"
    using assms(3) by (simp add: make_batches_more)
  then have more: "inv_batches (invocations s' ! length (invocations s)) \<noteq> []"
    by (simp add: s'_def)
  have eq: "translateNodesParallel textNodes s = window_loop (length (invocations s)) s'"
    unfolding requested(4) u s'_def ..
  show ?thesis
    unfolding eq window_loop_more(1)[OF more] by (simp add: s'_def)
qed

subsection \<open>Disabling and results in flight\<close>

text \<open>
  C1 (amended). After \<^verbatim>\<open>disable()\<close>, and for as long as \<^verbatim>\<open>enable()\<close> is not called again, no
  result of a batch that was in flight is written into the document: whatever settles,
  is flushed or changes, the document and the applier's record stay as \<^verbatim>\<open>disable()\<close> left
  them, because every application of results checks the enabled flag at that moment.
\<close>

theorem disabled_document_unchanged:
  "list_all (\<lambda>e. \<not> is_Enable e) events \<Longrightarrow>
     domTranslator (run (disable s) events) = domTranslator (disable s)
     \<and> \<not> isEnabled (run (disable s) events)"
  using run_disabled[OF disable_disabled] by blast

theorem disabled_document_unchanged_witness:
  "list_all (\<lambda>e. \<not> is_Enable e)
     [Settle 0 0 example_response, Flush [example_page], Tick 5]
   \<and> inv_window (invocations (run example_script [Enable example_page example_window]) ! 0) \<noteq> []
   \<and> document (domTranslator
        (run (disable (run example_script [Enable example_page example_window]))
             [Settle 0 0 example_response, Flush [example_page], Tick 5])) 1
       = Some [0x48, 0x65, 0x6C, 0x6C, 0x6F]"
proof -
  let ?events = "[Settle 0 0 example_response, Flush [example_page], Tick 5]"
  let ?s = "run example_script [Enable example_page example_window]"
  have quiet: "list_all (\<lambda>e. \<not> is_Enable e) ?events"
    by (simp add: example_response_def)
  have in_flight: "inv_window (invocations ?s ! 0) \<noteq> []"
    by code_simp
  have restored: "document (domTranslator (disable ?s)) 1 = Some [0x48, 0x65, 0x6C, 0x6C, 0x6F]"
    by code_simp
  from disabled_document_unchanged[OF quiet, of ?s]
  have "domTranslator (run (disable ?s) ?events) = domTranslator (disable ?s)"
    by blast
  with restored have "document (domTranslator (run (disable ?s) ?events)) 1
      = Some [0x48, 0x65, 0x6C, 0x6C, 0x6F]"
    by simp
  with quiet in_flight show ?thesis
    by blast
qed

text \<open>
  C1 as stated fails when \<^verbatim>\<open>enable()\<close> is called again before the batch completes: the
  batch sent by the first \<^verbatim>\<open>enable()\<close> is in flight when \<^verbatim>\<open>disable()\<close> runs; after the second
  \<^verbatim>\<open>enable()\<close> its response finds the flag set and is written into the document.
\<close>

theorem in_flight_result_applied_after_reenable:
  "inv_window (invocations
      (run example_script [Enable example_page example_window, Disable]) ! 0) \<noteq> []
   \<and> document (domTranslator
        (run example_script [Enable example_page example_window, Disable])) 1
       = Some [0x48, 0x65, 0x6C, 0x6C, 0x6F]
   \<and> sent (run example_script
        [Enable example_page example_window, Disable, Enable example_page example_window])
       = sent (run example_script [Enable example_page example_window])
   \<and> document (domTranslator
        (run example_script
           [Enable example_page example_window, Disable,
            Enable example_page example_window, Settle 0 0 example_response])) 1
       = Some [0xC548, 0xB155]"
  by code_simp

subsection \<open>The concurrency ceiling\<close>

text \<open>
  C4. In every state that the content script reaches, each call of
  \<^verbatim>\<open>translateNodesParallel\<close> has at most \<^verbatim>\<open>MAX_CONCURRENT_REQUESTS = 6\<close> messages outstanding;
  a call that is already in progress sends further messages only in the step in which the
  last outstanding message of its window is answered; and a call with ten batches sends
  the first six, and after their six responses has the remaining four outstanding and no
  batch left.
\<close>

theorem concurrency_ceiling:
  "window_bounded (run (initial st doc) events)
   \<and> (\<forall>i e. i < length (invocations (run (initial st doc) events))
            \<and> sent_by i (step (run (initial st doc) events) e)
                 \<noteq> sent_by i (run (initial st doc) events)
        \<longrightarrow> (\<exists>j response. e = Settle i j (Resolved response))
            \<and> length (inv_window (invocations (run (initial st doc) events) ! i)) = 1)
   \<and> (\<forall>s textNodes cached uncached rs.
        admitted s textNodes \<noteq> []
        \<and> getMultiple (clock s) (translationCache s) (map originalText (admitted s textNodes))
             (sourceLang (settings s)) (targetLang (settings s)) = (cached, uncached)
        \<and> length (make_batches (admitted s textNodes) uncached 0) = 10
        \<and> length rs = 6
        \<longrightarrow> (let i = length (invocations s);
                 batches = make_batches (admitted s textNodes) uncached 0;
                 s1 = translateNodesParallel textNodes s;
                 s2 = run s1 (map (\<lambda>r. Settle i 0 (Resolved r)) rs)
             in inv_window (invocations s1 ! i) = take 6 batches
                \<and> inv_batches (invocations s1 ! i) = drop 6 batches
                \<and> inv_window (invocations s2 ! i) = drop 6 batches
                \<and> inv_batches (invocations s2 ! i) = []))"
proof (intro conjI allI impI)
  show "window_bounded (run (initial st doc) events)"
    by (rule run_bounded) (rule initial_bounded)
next
  fix i e
  assume "i < length (invocations (run (initial st doc) events))
            \<and> sent_by i (step (run (initial st doc) events) e)
                 \<noteq> sent_by i (run (initial st doc) events)"
  then show "\<exists>j response. e = Settle i j (Resolved response)"
    and "length (inv_window (invocations (run (initial st doc) events) ! i)) = 1"
    using step_sent_by by blast+
next
  fix s textNodes cached uncached and rs :: "TranslationResponse option list"
  assume hyps: "admitted s textNodes \<noteq> []
        \<and> getMultiple (clock s) (translationCache s) (map originalText (admitted s textNodes))
             (sourceLang (settings s)) (targetLang (settings s)) = (cached, uncached)
        \<and> length (make_batches (admitted s textNodes) uncached 0) = 10
        \<and> length rs = 6"
  let ?i = "length (invocations s)"
  let ?bs = "make_batches (admitted s textNodes) uncached 0"
  let ?s1 = "translateNodesParallel textNodes s"
  from hyps have ten: "length ?bs = 10"
    by blast
  then have "?bs \<noteq> []"
    by auto
  then have "uncached \<noteq> []"
    by (rule make_batches_nonempty)
  with hyps have invs1: "invocations ?s1 =
      invocations s @
        [\<lparr>inv_newNodes = admitted s textNodes,
          inv_batches = drop MAX_CONCURRENT_REQUESTS ?bs,
          inv_window = take MAX_CONCURRENT_REQUESTS ?bs,
          inv_running = True,
          inv_sourceLang = sourceLang (settings s)\<rparr>]"
    by (intro translateNodesParallel_requested) blast+
  then have nth1: "invocations ?s1 ! ?i =
        \<lparr>inv_newNodes = admitted s textNodes,
          inv_batches = drop 6 ?bs, inv_window = take 6 ?bs,
          inv_running = True, inv_sourceLang = sourceLang (settings s)\<rparr>"
    and i1: "?i < length (invocations ?s1)"
    by (simp_all add: MAX_CONCURRENT_REQUESTS_def)
  from hyps ten
  have "invocations (run ?s1 (map (\<lambda>r. Settle ?i 0 (Resolved r)) rs))
           = (invocations ?s1)[?i := (invocations ?s1 ! ?i)
                \<lparr>inv_batches := drop MAX_CONCURRENT_REQUESTS (inv_batches (invocations ?s1 ! ?i)),
                 inv_window := take MAX_CONCURRENT_REQUESTS (inv_batches (invocations ?s1 ! ?i))\<rparr>]"
    by (intro window_worked_off[OF i1]) (auto simp: nth1)
  with i1 ten have "inv_window (invocations (run ?s1 (map (\<lambda>r. Settle ?i 0 (Resolved r)) rs)) ! ?i)
          = drop 6 ?bs"
    and "inv_batches (invocations (run ?s1 (map (\<lambda>r. Settle ?i 0 (Resolved r)) rs)) ! ?i) = []"
    by (simp_all add: nth1 MAX_CONCURRENT_REQUESTS_def)
  with nth1 show "let i = length (invocations s);
                 batches = make_batches (admitted s textNodes) uncached 0;
                 s1 = translateNodesParallel textNodes s;
                 s2 = run s1 (map (\<lambda>r. Settle i 0 (Resolved r)) rs)
             in inv_window (invocations s1 ! i) = take 6 batches
                \<and> inv_batches (invocations s1 ! i) = drop 6 batches
                \<and> inv_window (invocations s2 ! i) = drop 6 batches
                \<and> inv_batches (invocations s2 ! i) = []"
    by (simp add: Let_def)
qed


lemma getMultiple_empty_cache:
  "getMultiple now [] texts src tgt =
     ([], map (\<lambda>(i, s). \<lparr>index = i, text' = s\<rparr>) (zip [0..<length texts] texts))"
proof -
  have "concat (map (\<lambda>(i, s). [\<lparr>index = i, text' = s\<rparr>]) xs)
          = map (\<lambda>(i, s). \<lparr>index = i, text' = s\<rparr>) xs" for xs :: "(nat \<times> jsstring) list"
    by (induction xs) auto
  moreover have "concat (map (\<lambda>(i, s). []) xs) = ([] :: (nat \<times> jsstring) list)"
    for xs :: "(nat \<times> jsstring) list"
    by (induction xs) auto
  ultimately show ?thesis
    by (simp add: getMultiple_def cache_get_def Let_def)
qed

lemma example_units_admitted: "admitted example_script example_units = example_units"
proof -
  have "isSourceLanguage [0x48, 0x69] En"
    by code_simp
  then show ?thesis
    by (simp add: admitted_def example_script_def initial_def example_units_def)
qed

lemma example_units_length: "length example_units = 73"
  by (simp add: example_units_def)

theorem concurrency_ceiling_witness:
  "admitted example_script example_units \<noteq> []
   \<and> length (make_batches (admitted example_script example_units)
        (snd (getMultiple (clock example_script) (translationCache example_script)
               (map originalText (admitted example_script example_units))
               (sourceLang (settings example_script)) (targetLang (settings example_script)))) 0) = 10
   \<and> map (\<lambda>b. length (indices b))
         (inv_window (invocations (translateNodesParallel example_units example_script) ! 0))
       = [8, 8, 8, 8, 8, 8]
   \<and> map (\<lambda>b. length (indices b))
         (inv_window (invocations
            (run (translateNodesParallel example_units example_script)
                 (map (\<lambda>r. Settle 0 0 (Resolved r)) (replicate 6 None))) ! 0))
       = [8, 8, 8, 1]"
proof -
  let ?N = "admitted example_script example_units"
  let ?split = "getMultiple (clock example_script) (translationCache example_script)
               (map originalText ?N)
               (sourceLang (settings example_script)) (targetLang (settings example_script))"
  let ?bs = "make_batches ?N (snd ?split) 0"
  let ?s1 = "translateNodesParallel example_units example_script"
  let ?rs = "replicate 6 (None :: TranslationResponse option)"
  have nonempty: "?N \<noteq> []"
    using example_units_length by (simp only: example_units_admitted) auto
  have "translationCache example_script = []"
    by (simp add: example_script_def initial_def)
  then have "length (snd ?split) = 73"
    by (simp only: getMultiple_empty_cache example_units_admitted)
       (simp add: example_units_length)
  then have sizes: "map (\<lambda>b. length (indices b)) ?bs = replicate 9 8 @ [1]"
    by (simp only: make_batches_sizes) simp
  then have "length (map (\<lambda>b. length (indices b)) ?bs) = 10"
    by (simp only:) simp
  then have ten: "length ?bs = 10"
    by (simp only: length_map)
  have first: "map (\<lambda>b. length (indices b)) (take 6 ?bs) = [8, 8, 8, 8, 8, 8]"
    and rest: "map (\<lambda>b. length (indices b)) (drop 6 ?bs) = [8, 8, 8, 1]"
    by (simp_all only: take_map[symmetric] drop_map[symmetric] sizes)
       (simp_all add: numeral_eq_Suc)
  have none: "length (invocations example_script) = 0"
    by (simp add: example_script_def initial_def)
  have six: "length ?rs = 6"
    by simp
  have pair: "?split = (fst ?split, snd ?split)"
    by simp
  note ceiling = concurrency_ceiling [of "\<lparr>sourceLang = En, targetLang = Ko\<rparr>" Map.empty "[]",
      THEN conjunct2, THEN conjunct2, rule_format,
      of example_script example_units "fst ?split" "snd ?split" ?rs,
      OF conjI[OF nonempty conjI[OF pair conjI[OF ten six]]], unfolded Let_def none]
  from ceiling have "inv_window (invocations ?s1 ! 0) = take 6 ?bs"
    and "inv_window (invocations (run ?s1 (map (\<lambda>r. Settle 0 0 (Resolved r)) ?rs)) ! 0) = drop 6 ?bs"
    by (rule conjunct1, rule conjunct2[THEN conjunct2, THEN conjunct1])
  then have "map (\<lambda>b. length (indices b)) (inv_window (invocations ?s1 ! 0)) = [8, 8, 8, 8, 8, 8]"
    and "map (\<lambda>b. length (indices b))
          (inv_window (invocations (run ?s1 (map (\<lambda>r. Settle 0 0 (Resolved r)) ?rs)) ! 0))
         = [8, 8, 8, 1]"
    by (simp_all only: first rest)
  with nonempty ten show ?thesis
    by (intro conjI)
qed

subsection \<open>The in-flight set and the calls in progress\<close>

lemma running_iff:
  "k \<in> set (running s) \<longleftrightarrow> k < length (invocations s) \<and> inv_running (invocations s ! k)"
  by (auto simp: running_def)

lemma map_update_same:
  "f x = f (xs ! i) \<Longrightarrow> map f (xs[i := x]) = map f xs"
  by (induction xs arbitrary: i) (auto split: nat.splits)

lemma same_calls_running:
  assumes "map inv_running (invocations s') = map inv_running (invocations s)"
  shows "set (running s') = set (running s)"
proof -
  from assms have len: "length (invocations s') = length (invocations s)"
    by (rule map_eq_imp_length_eq)
  have "inv_running (invocations s' ! k) = inv_running (invocations s ! k)"
    if "k < length (invocations s)" for k
    using that len nth_map[of k "invocations s'" inv_running] nth_map[of k "invocations s" inv_running]
    by (simp only: assms)
  with len show ?thesis
    by (auto simp: running_iff)
qed

lemma same_calls_units:
  assumes "map inv_newNodes (invocations s') = map inv_newNodes (invocations s)"
    and "k < length (invocations s)"
  shows "units_of s' k = units_of s k"
proof -
  from assms(1) have len: "length (invocations s') = length (invocations s)"
    by (rule map_eq_imp_length_eq)
  with assms(2) have "inv_newNodes (invocations s' ! k) = inv_newNodes (invocations s ! k)"
    using nth_map[of k "invocations s'" inv_newNodes] nth_map[of k "invocations s" inv_newNodes]
    by (simp only: assms(1))
  then show ?thesis
    by (simp only: units_of_def)
qed

lemma same_calls_consistent:
  assumes "translatingNodes s' = translatingNodes s"
    and "map inv_running (invocations s') = map inv_running (invocations s)"
    and "map inv_newNodes (invocations s') = map inv_newNodes (invocations s)"
    and "in_flight_consistent s"
  shows "in_flight_consistent s'"
proof -
  have r: "set (running s') = set (running s)"
    using assms(2) by (rule same_calls_running)
  have u: "units_of s' k = units_of s k" if "k \<in> set (running s)" for k
    using assms(3) that by (intro same_calls_units) (simp_all add: running_iff)
  from assms(4) show ?thesis
    unfolding in_flight_consistent_def r assms(1)
    by (simp add: u)
qed

lemma call_settled_calls:
  "map inv_running (invocations (call_settled i j s)) = map inv_running (invocations s)"
  "map inv_newNodes (invocations (call_settled i j s)) = map inv_newNodes (invocations s)"
  by (simp_all add: call_settled_invocations map_update_same)

lemma window_loop_more_calls:
  assumes "inv_batches (invocations s ! i) \<noteq> []"
  shows "map inv_running (invocations (window_loop i s)) = map inv_running (invocations s)"
    and "map inv_newNodes (invocations (window_loop i s)) = map inv_newNodes (invocations s)"
  by (simp_all add: window_loop_more(1)[OF assms] map_update_same)

lemma finally_block_calls:
  "map inv_newNodes (invocations (finally_block i s)) = map inv_newNodes (invocations s)"
  "length (invocations (finally_block i s)) = length (invocations s)"
  "k \<noteq> i \<Longrightarrow> invocations (finally_block i s) ! k = invocations s ! k"
  "i < length (invocations s) \<Longrightarrow> \<not> inv_running (invocations (finally_block i s) ! i)"
  by (simp_all add: finally_block_invocations map_update_same)

lemma finally_block_consistent:
  assumes "in_flight_consistent s" and "i < length (invocations s)"
    and "inv_running (invocations s ! i)"
  shows "in_flight_consistent (finally_block i s)"
proof -
  let ?s' = "finally_block i s"
  have r: "set (running ?s') = set (running s) - {i}"
    using assms(2)
    by (auto simp: running_iff finally_block_invocations nth_list_update split: if_splits)
  have u: "units_of ?s' k = units_of s k" if "k < length (invocations s)" for k
    using that by (intro same_calls_units finally_block_calls)
  have i: "i \<in> set (running s)"
    using assms(2,3) by (simp add: running_iff)
  have t: "translatingNodes ?s' = translatingNodes s - units_of s i"
    by (simp add: finally_block_invocations units_of_def)
  from assms(1) have T: "translatingNodes s = (\<Union>k \<in> set (running s). units_of s k)"
    and D: "\<And>k l. k \<in> set (running s) \<Longrightarrow> l \<in> set (running s) \<Longrightarrow> k \<noteq> l \<Longrightarrow>
               units_of s k \<inter> units_of s l = {}"
    unfolding in_flight_consistent_def by blast+
  have u': "units_of ?s' k = units_of s k" if "k \<in> set (running s)" for k
    using that by (intro u) (simp add: running_iff)
  have "(\<Union>k \<in> set (running s). units_of s k) - units_of s i
          = (\<Union>k \<in> set (running s) - {i}. units_of s k)"
    using D[OF _ i] by blast
  then have "translatingNodes ?s' = (\<Union>k \<in> set (running ?s'). units_of ?s' k)"
    unfolding t T r using u' by simp
  moreover have "units_of ?s' k \<inter> units_of ?s' l = {}"
    if "k \<in> set (running ?s')" "l \<in> set (running ?s')" "k \<noteq> l" for k l
    using that D[of k l] u'[of k] u'[of l] unfolding r by simp
  ultimately show ?thesis
    unfolding in_flight_consistent_def by blast
qed

lemma window_loop_consistent:
  assumes "in_flight_consistent s" and "i < length (invocations s)"
    and "inv_running (invocations s ! i)"
  shows "in_flight_consistent (window_loop i s)"
proof (cases "inv_batches (invocations s ! i) = []")
  case True
  from finally_block_consistent[OF assms] show ?thesis
    by (simp only: window_loop_done[OF True])
next
  case False
  from window_loop_more(2)[OF False] window_loop_more_calls[OF False] assms(1)
  show ?thesis
    by (rule same_calls_consistent)
qed

lemma translateBatch_resume_consistent:
  "in_flight_consistent (translateBatch_resume b response s) = in_flight_consistent s"
  by (simp add: in_flight_consistent_def running_def units_of_def translateBatch_resume_frame)

lemma call_settled_consistent:
  "in_flight_consistent s \<Longrightarrow> in_flight_consistent (call_settled i j s)"
  by (rule same_calls_consistent[OF call_settled_frame(3) call_settled_calls])

lemma call_settled_nth:
  "length (invocations (call_settled i j s)) = length (invocations s)"
  "inv_running (invocations (call_settled i j s) ! k) = inv_running (invocations s ! k)"
  "inv_newNodes (invocations (call_settled i j s) ! k) = inv_newNodes (invocations s ! k)"
  "inv_batches (invocations (call_settled i j s) ! k) = inv_batches (invocations s ! k)"
proof -
  show "length (invocations (call_settled i j s)) = length (invocations s)"
    by (simp add: call_settled_invocations)
  have "invocations (call_settled i j s) ! k = invocations s ! k
        \<or> invocations (call_settled i j s) ! k
            = (invocations s ! k)\<lparr>inv_window := take j (inv_window (invocations s ! k))
                         @ drop (Suc j) (inv_window (invocations s ! k))\<rparr>"
  proof (cases "k = i \<and> i < length (invocations s)")
    case True
    then show ?thesis by (simp add: call_settled_invocations)
  next
    case False
    then have "invocations (call_settled i j s) ! k = invocations s ! k"
      by (cases "k = i") (simp_all add: call_settled_invocations list_update_beyond)
    then show ?thesis ..
  qed
  then show "inv_running (invocations (call_settled i j s) ! k) = inv_running (invocations s ! k)"
    and "inv_newNodes (invocations (call_settled i j s) ! k) = inv_newNodes (invocations s ! k)"
    and "inv_batches (invocations (call_settled i j s) ! k) = inv_batches (invocations s ! k)"
    by auto
qed

lemma settle_consistent:
  assumes "in_flight_consistent s"
  shows "in_flight_consistent (settle i j outcome s)"
proof (cases "i < length (invocations s) \<and> j < length (inv_window (invocations s ! i))")
  case False
  from settle_noop[OF False] assms show ?thesis by simp
next
  case True
  then have i: "i < length (invocations s)" and j: "j < length (inv_window (invocations s ! i))"
    by blast+
  have s1: "in_flight_consistent (call_settled i j s)"
    using assms by (rule call_settled_consistent)
  show ?thesis
  proof (cases outcome)
    case Rejected
    show ?thesis
    proof (cases "inv_running (invocations s ! i)")
      case True
      then have "in_flight_consistent (finally_block i (call_settled i j s))"
        using s1 i by (intro finally_block_consistent) (simp_all add: call_settled_nth)
      with True show ?thesis
        unfolding Rejected settle_rejected[OF i j] by simp
    next
      case False
      with s1 show ?thesis
        unfolding Rejected settle_rejected[OF i j] by simp
    qed
  next
    case (Resolved response)
    define s2 where
      "s2 = translateBatch_resume (inv_window (invocations s ! i) ! j) response (call_settled i j s)"
    have s2: "in_flight_consistent s2"
      using s1 by (simp only: s2_def translateBatch_resume_consistent)
    have inv2: "invocations s2 = invocations (call_settled i j s)"
      by (simp add: s2_def translateBatch_resume_frame)
    define last_one where
      "last_one \<longleftrightarrow> inv_running (invocations s ! i)
                      \<and> inv_window (invocations (call_settled i j s) ! i) = []"
    have res: "settle i j outcome s = (if last_one then window_loop i s2 else s2)"
      using Resolved by (simp only: settle_resolved[OF i j] s2_def last_one_def)
    show ?thesis
    proof (cases last_one)
      case False
      with res s2 show ?thesis by simp
    next
      case True
      then have "inv_running (invocations s2 ! i)"
        by (simp add: last_one_def inv2 call_settled_nth)
      moreover have "i < length (invocations s2)"
        using i by (simp add: inv2 call_settled_nth)
      ultimately have "in_flight_consistent (window_loop i s2)"
        using s2 by (intro window_loop_consistent)
      with res True show ?thesis by simp
    qed
  qed
qed

lemma make_batches_some: "uncached \<noteq> [] \<Longrightarrow> make_batches newNodes uncached 0 \<noteq> []"
  by (simp add: make_batches_more)

lemma started_consistent:
  assumes "in_flight_consistent s" and "U \<inter> translatingNodes s = {}"
    and "U = set (map node ns)"
  shows "in_flight_consistent
           (s\<lparr>translatingNodes := translatingNodes s \<union> U, domTranslator := dt,
              invocations := invocations s @
                [\<lparr>inv_newNodes = ns, inv_batches = bs, inv_window = w, inv_running = True,
                  inv_sourceLang = src\<rparr>]\<rparr>)"
    (is "in_flight_consistent ?s'")
proof -
  let ?n = "length (invocations s)"
  have r: "set (running ?s') = insert ?n (set (running s))"
    by (auto simp: running_iff nth_append less_Suc_eq)
  have u: "units_of ?s' k = units_of s k" if "k \<in> set (running s)" for k
    using that by (simp add: units_of_def running_iff nth_append)
  have un: "units_of ?s' ?n = U"
    by (simp add: units_of_def assms(3))
  have fresh: "?n \<notin> set (running s)"
    by (simp add: running_iff)
  from assms(1) have T: "translatingNodes s = (\<Union>k \<in> set (running s). units_of s k)"
    and D: "\<And>k l. k \<in> set (running s) \<Longrightarrow> l \<in> set (running s) \<Longrightarrow> k \<noteq> l \<Longrightarrow>
               units_of s k \<inter> units_of s l = {}"
    unfolding in_flight_consistent_def by blast+
  have sub: "units_of s k \<subseteq> translatingNodes s" if "k \<in> set (running s)" for k
    using that T by blast
  have "translatingNodes ?s' = (\<Union>k \<in> set (running ?s'). units_of ?s' k)"
    unfolding r using T u un by auto
  moreover have "units_of ?s' k \<inter> units_of ?s' l = {}"
    if "k \<in> set (running ?s')" "l \<in> set (running ?s')" "k \<noteq> l" for k l
  proof -
    from that(1) have k: "k = ?n \<or> k \<in> set (running s)"
      by (simp only: r insert_iff)
    from that(2) have l: "l = ?n \<or> l \<in> set (running s)"
      by (simp only: r insert_iff)
    from k l that(3)
    consider "k = ?n" "l \<in> set (running s)" | "l = ?n" "k \<in> set (running s)"
      | "k \<in> set (running s)" "l \<in> set (running s)"
      by blast
    then show ?thesis
    proof cases
      case 1
      with sub[of l] assms(2) un u[of l] show ?thesis by auto
    next
      case 2
      with sub[of k] assms(2) un u[of k] show ?thesis by auto
    next
      case 3
      with D[of k l] that(3) u[of k] u[of l] show ?thesis by simp
    qed
  qed
  ultimately show ?thesis
    unfolding in_flight_consistent_def by blast
qed

lemma translateNodesParallel_consistent:
  assumes "in_flight_consistent s"
  shows "in_flight_consistent (translateNodesParallel textNodes s)"
proof (cases rule: translateNodesParallel_cases[of s textNodes])
  case skipped
  with assms show ?thesis by simp
next
  case (cached dt c)
  from assms have "in_flight_consistent (s\<lparr>domTranslator := dt\<rparr>)"
    by (simp add: in_flight_consistent_def running_def units_of_def)
  with cached show ?thesis by simp
next
  case (requested dt c u)
  let ?N = "admitted s textNodes"
  let ?s0 = "s\<lparr>translatingNodes := translatingNodes s \<union> node ` set ?N,
              domTranslator := dt,
              invocations := invocations s @
                [\<lparr>inv_newNodes = ?N, inv_batches = make_batches ?N u 0,
                  inv_window = [], inv_running = True,
                  inv_sourceLang = sourceLang (settings s)\<rparr>]\<rparr>"
  have "in_flight_consistent ?s0"
    using assms admitted_fresh[of s textNodes] by (intro started_consistent) simp_all
  moreover have "length (invocations s) < length (invocations ?s0)"
    and "inv_running (invocations ?s0 ! length (invocations s))"
    by simp_all
  ultimately have "in_flight_consistent (window_loop (length (invocations s)) ?s0)"
    by (intro window_loop_consistent)
  with requested(4) show ?thesis
    by (simp only:)
qed

lemma step_consistent:
  assumes "in_flight_consistent s"
  shows "in_flight_consistent (step s e)"
proof (cases e)
  case (Enable body' window)
  have "in_flight_consistent (s\<lparr>isEnabled := True\<rparr>)"
    using assms by (simp add: in_flight_consistent_def running_def units_of_def)
  with assms translateNodesParallel_consistent enable_cases[of body' window s] Enable
  show ?thesis by auto
next
  case Disable
  with assms show ?thesis
    by (simp add: disable_def in_flight_consistent_def running_def units_of_def)
next
  case (Flush nodesToProcess)
  from assms have "in_flight_consistent (flush nodesToProcess s)"
    by (rule flush_induct) (rule translateNodesParallel_consistent)
  with Flush show ?thesis by simp
next
  case (Settle i j outcome)
  with assms settle_consistent show ?thesis by simp
next
  case (SettingsChanged src tgt)
  with assms show ?thesis
    by (simp add: in_flight_consistent_def running_def units_of_def)
next
  case (Tick ms)
  with assms show ?thesis
    by (simp add: in_flight_consistent_def running_def units_of_def)
qed

lemma run_consistent: "in_flight_consistent s \<Longrightarrow> in_flight_consistent (run s events)"
  unfolding run_def by (induction events arbitrary: s) (simp_all add: step_consistent)

lemma initial_consistent: "in_flight_consistent (initial st doc)"
  by (simp add: in_flight_consistent_def running_def initial_def)

lemma window_loop_other:
  "k \<noteq> i \<Longrightarrow> invocations (window_loop i s) ! k = invocations s ! k"
  by (cases "inv_batches (invocations s ! i) = []")
     (simp_all add: window_loop_done finally_block_invocations window_loop_more)

lemma window_loop_more_nth:
  assumes "inv_batches (invocations s ! i) \<noteq> []"
  shows "inv_running (invocations (window_loop i s) ! k) = inv_running (invocations s ! k)"
    and "inv_newNodes (invocations (window_loop i s) ! k) = inv_newNodes (invocations s ! k)"
proof -
  have "invocations (window_loop i s) ! k = invocations s ! k
        \<or> invocations (window_loop i s) ! k
            = (invocations s ! k)
                \<lparr>inv_batches := drop MAX_CONCURRENT_REQUESTS (inv_batches (invocations s ! k)),
                 inv_window := take MAX_CONCURRENT_REQUESTS (inv_batches (invocations s ! k))\<rparr>"
  proof (cases "k = i \<and> i < length (invocations s)")
    case True
    then show ?thesis by (simp add: window_loop_more(1)[OF assms])
  next
    case False
    then have "invocations (window_loop i s) ! k = invocations s ! k"
      by (cases "k = i") (simp_all add: window_loop_more(1)[OF assms] list_update_beyond)
    then show ?thesis ..
  qed
  then show "inv_running (invocations (window_loop i s) ! k) = inv_running (invocations s ! k)"
    and "inv_newNodes (invocations (window_loop i s) ! k) = inv_newNodes (invocations s ! k)"
    by auto
qed

lemma translateNodesParallel_old:
  assumes "k < length (invocations s)"
  shows "invocations (translateNodesParallel textNodes s) ! k = invocations s ! k"
proof (cases rule: translateNodesParallel_cases[of s textNodes])
  case skipped
  then show ?thesis by simp
next
  case (cached dt c)
  then show ?thesis by simp
next
  case (requested dt c u)
  from assms have "k \<noteq> length (invocations s)"
    by simp
  then have "invocations (translateNodesParallel textNodes s) ! k
      = (invocations s @
                [\<lparr>inv_newNodes = admitted s textNodes,
                  inv_batches = make_batches (admitted s textNodes) u 0,
                  inv_window = [], inv_running = True,
                  inv_sourceLang = sourceLang (settings s)\<rparr>]) ! k"
    unfolding requested(4) by (subst window_loop_other) simp_all
  with assms show ?thesis
    by (simp add: nth_append)
qed

lemma flush_old:
  "length (invocations s) \<le> length (invocations (flush nodesToProcess s))
   \<and> (\<forall>k < length (invocations s). invocations (flush nodesToProcess s) ! k = invocations s ! k)"
proof (rule flush_induct)
  show "length (invocations s) \<le> length (invocations s)
        \<and> (\<forall>k < length (invocations s). invocations s ! k = invocations s ! k)"
    by simp
next
  fix s' :: PlainlyContentScript and textNodes
  assume P: "length (invocations s) \<le> length (invocations s')
        \<and> (\<forall>k < length (invocations s). invocations s' ! k = invocations s ! k)"
  show "length (invocations s) \<le> length (invocations (translateNodesParallel textNodes s'))
        \<and> (\<forall>k < length (invocations s).
              invocations (translateNodesParallel textNodes s') ! k = invocations s ! k)"
  proof (intro conjI allI impI)
    from P translateNodesParallel_length[of s' textNodes]
    show "length (invocations s) \<le> length (invocations (translateNodesParallel textNodes s'))"
      by linarith
  next
    fix k assume k: "k < length (invocations s)"
    with P have "k < length (invocations s')" by linarith
    then have "invocations (translateNodesParallel textNodes s') ! k = invocations s' ! k"
      by (rule translateNodesParallel_old)
    with P k show "invocations (translateNodesParallel textNodes s') ! k = invocations s ! k"
      by simp
  qed
qed

lemma settle_other:
  assumes "k \<noteq> i"
  shows "invocations (settle i j outcome s) ! k = invocations s ! k"
proof (cases "i < length (invocations s) \<and> j < length (inv_window (invocations s ! i))")
  case False
  from settle_noop[OF False] show ?thesis by simp
next
  case True
  then have i: "i < length (invocations s)" and j: "j < length (inv_window (invocations s ! i))"
    by blast+
  have s1: "invocations (call_settled i j s) ! k = invocations s ! k"
    using assms by (simp add: call_settled_invocations)
  show ?thesis
  proof (cases outcome)
    case Rejected
    from assms s1 show ?thesis
      unfolding Rejected settle_rejected[OF i j]
      by (simp add: finally_block_calls)
  next
    case (Resolved response)
    from assms s1 show ?thesis
      unfolding Resolved settle_resolved[OF i j]
      by (simp add: window_loop_other translateBatch_resume_frame)
  qed
qed

lemma settle_completes:
  assumes "inv_running (invocations s ! i)"
    and "\<not> inv_running (invocations (settle i j outcome s) ! i)"
  shows "translatingNodes (settle i j outcome s) = translatingNodes s - units_of s i"
proof (cases "i < length (invocations s) \<and> j < length (inv_window (invocations s ! i))")
  case False
  from settle_noop[OF False] assms show ?thesis by simp
next
  case True
  then have i: "i < length (invocations s)" and j: "j < length (inv_window (invocations s ! i))"
    by blast+
  show ?thesis
  proof (cases outcome)
    case Rejected
    with assms(1) show ?thesis
      unfolding Rejected settle_rejected[OF i j]
      by (simp add: finally_block_invocations call_settled_frame call_settled_nth units_of_def)
  next
    case (Resolved response)
    define s2 where
      "s2 = translateBatch_resume (inv_window (invocations s ! i) ! j) response (call_settled i j s)"
    have inv2: "invocations s2 = invocations (call_settled i j s)"
      and t2: "translatingNodes s2 = translatingNodes s"
      by (simp_all add: s2_def translateBatch_resume_frame call_settled_frame)
    define last_one where
      "last_one \<longleftrightarrow> inv_running (invocations s ! i)
                      \<and> inv_window (invocations (call_settled i j s) ! i) = []"
    have res: "settle i j outcome s = (if last_one then window_loop i s2 else s2)"
      using Resolved by (simp only: settle_resolved[OF i j] s2_def last_one_def)
    have run2: "inv_running (invocations s2 ! i)"
      using assms(1) by (simp add: inv2 call_settled_nth)
    show ?thesis
    proof (cases last_one)
      case False
      with res assms(2) run2 show ?thesis by simp
    next
      case True
      with res have res': "settle i j outcome s = window_loop i s2" by simp
      show ?thesis
      proof (cases "inv_batches (invocations s2 ! i) = []")
        case fin: True
        show ?thesis
          unfolding res' window_loop_done[OF fin]
          by (simp add: finally_block_invocations t2 inv2 call_settled_nth units_of_def)
      next
        case more: False
        from window_loop_more_nth(1)[OF more, of i] run2 assms(2) res'
        show ?thesis by simp
      qed
    qed
  qed
qed

lemma step_completes:
  assumes "i < length (invocations s)" and "inv_running (invocations s ! i)"
    and "\<not> inv_running (invocations (step s e) ! i)"
  shows "translatingNodes (step s e) = translatingNodes s - units_of s i"
proof (cases e)
  case (Enable body' window)
  have "invocations (translateNodesParallel ns (s\<lparr>isEnabled := True\<rparr>)) ! i = invocations s ! i" for ns
    using assms(1) translateNodesParallel_old[of i "s\<lparr>isEnabled := True\<rparr>" ns] by simp
  with enable_cases[of body' window s] have "invocations (enable body' window s) ! i = invocations s ! i"
    by auto
  with assms(2,3) Enable show ?thesis by simp
next
  case Disable
  with assms(2,3) show ?thesis by (simp add: disable_def split: if_splits)
next
  case (Flush nodesToProcess)
  with flush_old[of s nodesToProcess] assms show ?thesis by simp
next
  case (Settle k j outcome)
  show ?thesis
  proof (cases "k = i")
    case True
    with settle_completes[of s i j outcome] assms(2,3) Settle show ?thesis by simp
  next
    case False
    then have "invocations (settle k j outcome s) ! i = invocations s ! i"
      by (intro settle_other) simp
    with assms(2,3) Settle show ?thesis by simp
  qed
next
  case (SettingsChanged src tgt)
  with assms(2,3) show ?thesis by simp
next
  case (Tick ms)
  with assms(2,3) show ?thesis by simp
qed

lemma rejected_completes:
  assumes "i < length (invocations s)" and "j < length (inv_window (invocations s ! i))"
  shows "\<not> inv_running (invocations (settle i j Rejected s) ! i)"
  using assms unfolding settle_rejected[OF assms]
  by (simp add: finally_block_calls call_settled_nth)

lemma resolved_completes:
  assumes "i < length (invocations s)" and "length (inv_window (invocations s ! i)) = 1"
    and "inv_batches (invocations s ! i) = []"
  shows "\<not> inv_running (invocations (settle i 0 (Resolved response) s) ! i)"
proof -
  from assms(2) have j: "0 < length (inv_window (invocations s ! i))"
    by simp
  define s2 where
    "s2 = translateBatch_resume (inv_window (invocations s ! i) ! 0) response (call_settled i 0 s)"
  have inv2: "invocations s2 = invocations (call_settled i 0 s)"
    by (simp add: s2_def translateBatch_resume_frame)
  have empty: "inv_window (invocations (call_settled i 0 s) ! i) = []"
    using assms(1,2) by (simp add: call_settled_invocations)
  have res: "settle i 0 (Resolved response) s =
      (if inv_running (invocations s ! i) then window_loop i s2 else s2)"
    by (simp only: settle_resolved[OF assms(1) j] s2_def empty simp_thms)
  have fin: "inv_batches (invocations s2 ! i) = []"
    using assms(3) by (simp add: inv2 call_settled_nth)
  show ?thesis
  proof (cases "inv_running (invocations s ! i)")
    case True
    with assms(1) show ?thesis
      unfolding res window_loop_done[OF fin]
      by (simp add: finally_block_calls inv2 call_settled_nth)
  next
    case False
    then show ?thesis
      unfolding res by (simp add: inv2 call_settled_nth)
  qed
qed

lemma translateNodesParallel_started:
  "(sent (translateNodesParallel textNodes s) = sent s
      \<and> translatingNodes (translateNodesParallel textNodes s) = translatingNodes s
      \<and> invocations (translateNodesParallel textNodes s) = invocations s)
   \<or> (sent (translateNodesParallel textNodes s) \<noteq> sent s
      \<and> translatingNodes (translateNodesParallel textNodes s)
           = translatingNodes s \<union> set (map node (admitted s textNodes))
      \<and> length (invocations (translateNodesParallel textNodes s)) = Suc (length (invocations s))
      \<and> inv_running (invocations (translateNodesParallel textNodes s) ! length (invocations s))
      \<and> inv_newNodes (invocations (translateNodesParallel textNodes s) ! length (invocations s))
           = admitted s textNodes)"
proof (cases rule: translateNodesParallel_cases[of s textNodes])
  case skipped
  then show ?thesis by simp
next
  case (cached dt c)
  then show ?thesis by simp
next
  case (requested dt c u)
  let ?N = "admitted s textNodes"
  let ?s0 = "s\<lparr>translatingNodes := translatingNodes s \<union> node ` set ?N,
              domTranslator := dt,
              invocations := invocations s @
                [\<lparr>inv_newNodes = ?N, inv_batches = make_batches ?N u 0,
                  inv_window = [], inv_running = True,
                  inv_sourceLang = sourceLang (settings s)\<rparr>]\<rparr>"
  have more: "inv_batches (invocations ?s0 ! length (invocations s)) \<noteq> []"
    using make_batches_some[OF requested(2)] by simp
  have "sent (window_loop (length (invocations s)) ?s0) \<noteq> sent s"
    using more unfolding window_loop_more(3)[OF more] by (simp add: MAX_CONCURRENT_REQUESTS_def)
  moreover have "translatingNodes (window_loop (length (invocations s)) ?s0)
       = translatingNodes s \<union> set (map node ?N)"
    unfolding window_loop_more(2)[OF more] by simp
  moreover have "length (invocations (window_loop (length (invocations s)) ?s0))
       = Suc (length (invocations s))"
    by (simp add: window_loop_length)
  moreover have "inv_running (invocations (window_loop (length (invocations s)) ?s0) ! length (invocations s))"
    unfolding window_loop_more_nth(1)[OF more] by simp
  moreover have "inv_newNodes (invocations (window_loop (length (invocations s)) ?s0) ! length (invocations s))
       = ?N"
    unfolding window_loop_more_nth(2)[OF more] by simp
  ultimately show ?thesis
    unfolding requested(4) by blast
qed

subsection \<open>The in-flight set de-duplicates work\<close>

text \<open>
  C2. In every state that the content script reaches, \<^verbatim>\<open>translatingNodes\<close> holds exactly the
  units of the calls of \<^verbatim>\<open>translateNodesParallel\<close> that have not completed, and no unit
  belongs to two of them. A unit in the set does not pass the filter of a new call. A call
  that sends a message has put all the units that passed its filter into the set, and a
  call that sends nothing leaves the set as it was. The step in which a call completes
  takes exactly its units out of the set; a rejected message completes the call, and so
  does the answer to the last message when no batch is left. A second \<^verbatim>\<open>enable()\<close> without
  a \<^verbatim>\<open>disable()\<close> in between does nothing.
\<close>

theorem in_flight_set_deduplicates:
  "in_flight_consistent (run (initial st doc) events)
   \<and> (\<forall>n :: TextNodeInfo. node n \<in> translatingNodes s \<longrightarrow> n \<notin> set (admitted s textNodes))
   \<and> (let s' = translateNodesParallel textNodes s
      in if sent s' = sent s
         then translatingNodes s' = translatingNodes s \<and> invocations s' = invocations s
         else translatingNodes s' = translatingNodes s \<union> set (map node (admitted s textNodes))
              \<and> length (invocations s') = Suc (length (invocations s))
              \<and> inv_running (invocations s' ! length (invocations s))
              \<and> inv_newNodes (invocations s' ! length (invocations s)) = admitted s textNodes)
   \<and> (i < length (invocations s) \<and> inv_running (invocations s ! i)
        \<and> \<not> inv_running (invocations (step s e) ! i)
        \<longrightarrow> translatingNodes (step s e) = translatingNodes s - units_of s i)
   \<and> (i < length (invocations s) \<and> j < length (inv_window (invocations s ! i))
        \<longrightarrow> \<not> inv_running (invocations (step s (Settle i j Rejected)) ! i))
   \<and> (i < length (invocations s) \<and> length (inv_window (invocations s ! i)) = 1
        \<and> inv_batches (invocations s ! i) = []
        \<longrightarrow> \<not> inv_running (invocations (step s (Settle i 0 (Resolved response))) ! i))
   \<and> (isEnabled s \<longrightarrow> step s (Enable body' window) = s)"
proof (intro conjI allI impI)
  show "in_flight_consistent (run (initial st doc) events)"
    by (rule run_consistent) (rule initial_consistent)
next
  fix n :: TextNodeInfo assume "node n \<in> translatingNodes s"
  then show "n \<notin> set (admitted s textNodes)"
    by (simp add: admitted_def)
next
  from translateNodesParallel_started[of textNodes s]
  show "let s' = translateNodesParallel textNodes s
      in if sent s' = sent s
         then translatingNodes s' = translatingNodes s \<and> invocations s' = invocations s
         else translatingNodes s' = translatingNodes s \<union> set (map node (admitted s textNodes))
              \<and> length (invocations s') = Suc (length (invocations s))
              \<and> inv_running (invocations s' ! length (invocations s))
              \<and> inv_newNodes (invocations s' ! length (invocations s)) = admitted s textNodes"
    unfolding Let_def by (cases "sent (translateNodesParallel textNodes s) = sent s") simp_all
next
  assume "i < length (invocations s) \<and> inv_running (invocations s ! i)
        \<and> \<not> inv_running (invocations (step s e) ! i)"
  then show "translatingNodes (step s e) = translatingNodes s - units_of s i"
    using step_completes by blast
next
  assume "i < length (invocations s) \<and> j < length (inv_window (invocations s ! i))"
  then show "\<not> inv_running (invocations (step s (Settle i j Rejected)) ! i)"
    using rejected_completes by simp
next
  assume "i < length (invocations s) \<and> length (inv_window (invocations s ! i)) = 1
        \<and> inv_batches (invocations s ! i) = []"
  then show "\<not> inv_running (invocations (step s (Settle i 0 (Resolved response))) ! i)"
    using resolved_completes by simp
next
  assume "isEnabled s"
  then show "step s (Enable body' window) = s"
    by (simp add: enable_def)
qed

theorem in_flight_set_deduplicates_witness:
  "in_flight_consistent (run example_script [Enable example_page example_window])
   \<and> 1 \<in> translatingNodes (run example_script [Enable example_page example_window])
   \<and> \<lparr>node = 1, originalText = [0x48, 0x65, 0x6C, 0x6C, 0x6F], parentElement = example_div\<rparr>
       \<notin> set (admitted (run example_script [Enable example_page example_window])
                  [\<lparr>node = 1, originalText = [0x48, 0x65, 0x6C, 0x6C, 0x6F],
                    parentElement = example_div\<rparr>])
   \<and> inv_running (invocations (run example_script [Enable example_page example_window]) ! 0)
   \<and> \<not> inv_running (invocations
          (run example_script [Enable example_page example_window, Settle 0 0 Rejected]) ! 0)
   \<and> translatingNodes (run example_script [Enable example_page example_window, Settle 0 0 Rejected])
       = {}
   \<and> \<not> inv_running (invocations
          (run example_script [Enable example_page example_window, Settle 0 0 example_response]) ! 0)
   \<and> translatingNodes
        (run example_script [Enable example_page example_window, Settle 0 0 example_response]) = {}
   \<and> run example_script [Enable example_page example_window, Enable example_page example_window]
       = run example_script [Enable example_page example_window]"
proof -
  let ?s = "run example_script [Enable example_page example_window]"
  let ?u = "\<lparr>node = 1, originalText = [0x48, 0x65, 0x6C, 0x6C, 0x6F :: 16 word],
             parentElement = example_div\<rparr>"
  let ?r = "Some \<lparr>success = True,
                     data = Some [\<lparr>original = [0x48, 0x65, 0x6C, 0x6C, 0x6F :: 16 word],
                                   translated = [0xC548, 0xB155]\<rparr>],
                     error = None\<rparr>"
  note dedup = in_flight_set_deduplicates
      [where st = "\<lparr>sourceLang = En, targetLang = Ko\<rparr>"
         and doc = "Map.empty(1 \<mapsto> [0x48, 0x65, 0x6C, 0x6C, 0x6F])"
         and events = "[Enable example_page example_window]"
         and s = ?s and textNodes = "[?u]" and i = 0 and j = 0 and response = ?r
         and body' = example_page and window = example_window,
       folded example_script_def]
  have in_set: "node ?u \<in> translatingNodes ?s"
    by code_simp
  have call: "0 < length (invocations ?s)" "inv_running (invocations ?s ! 0)"
    "0 < length (inv_window (invocations ?s ! 0))"
    "length (inv_window (invocations ?s ! 0)) = 1" "inv_batches (invocations ?s ! 0) = []"
    by code_simp+
  have units: "translatingNodes ?s - units_of ?s 0 = {}"
    by code_simp
  have enabled: "isEnabled ?s"
    by code_simp
  have steps: "run example_script [Enable example_page example_window, e] = step ?s e" for e
    by (simp add: run_def)
  have resp: "example_response = Resolved ?r"
    by (simp add: example_response_def)
  from dedup have c1: "in_flight_consistent ?s"
    by (rule conjunct1)
  from dedup[THEN conjunct2, THEN conjunct1, rule_format, where n = ?u] in_set
  have c2: "?u \<notin> set (admitted ?s [?u])"
    by blast
  from dedup[where e = "Settle 0 0 Rejected"] call
  have r1: "\<not> inv_running (invocations (step ?s (Settle 0 0 Rejected)) ! 0)"
    by blast
  from dedup[where e = "Settle 0 0 Rejected"] call r1
  have "translatingNodes (step ?s (Settle 0 0 Rejected)) = translatingNodes ?s - units_of ?s 0"
    by blast
  with units have r2: "translatingNodes (step ?s (Settle 0 0 Rejected)) = {}"
    by (simp only:)
  from dedup[where e = "Settle 0 0 (Resolved ?r)"] call
  have a1: "\<not> inv_running (invocations (step ?s (Settle 0 0 (Resolved ?r))) ! 0)"
    by blast
  from dedup[where e = "Settle 0 0 (Resolved ?r)"] call a1
  have "translatingNodes (step ?s (Settle 0 0 (Resolved ?r))) = translatingNodes ?s - units_of ?s 0"
    by blast
  with units have a2: "translatingNodes (step ?s (Settle 0 0 (Resolved ?r))) = {}"
    by (simp only:)
  from dedup[where e = "Settle 0 0 Rejected"] enabled
  have "step ?s (Enable example_page example_window) = ?s"
    by blast
  then have twice: "run example_script [Enable example_page example_window,
                       Enable example_page example_window] = ?s"
    by (simp only: steps)
  from in_set have in_set': "1 \<in> translatingNodes ?s"
    by simp
  from c1 in_set' c2 call(2) r1 r2 a1 a2 twice show ?thesis
    by (simp only: steps resp simp_thms)
qed

subsection \<open>The language gate\<close>
















subsection \<open>Only texts of the source language are submitted\<close>



subsection \<open>What the applier holds\<close>

lemma apply_one_tracks:
  assumes "tracks doc dt"
  shows "tracks doc (apply_one dt x)"
proof (cases x)
  case (Pair unit result)
  show ?thesis
  proof (cases unit)
    case None
    with Pair assms show ?thesis by (simp add: apply_one_def)
  next
    case (Some u)
    show ?thesis
    proof (cases "document dt (node u)")
      case None
      with Pair Some assms show ?thesis by (simp add: apply_one_def)
    next
      case shown: (Some shown)
      show ?thesis
      proof (cases "node u \<in> fst ` set (originals dt)")
        case True
        then have "apply_one dt x
            = \<lparr>document = (document dt)(node u \<mapsto> translated result), originals = originals dt\<rparr>"
          using Pair Some shown by (simp add: apply_one_def)
        with assms True show ?thesis
          unfolding tracks_def by auto
      next
        case False
        then have eq: "apply_one dt x
            = \<lparr>document = (document dt)(node u \<mapsto> translated result),
               originals = originals dt @ [(node u, shown)]\<rparr>"
          using Pair Some shown by (simp add: apply_one_def)
        from assms False shown have "doc (node u) = Some shown"
          unfolding tracks_def by simp
        with assms False show ?thesis
          unfolding tracks_def eq by auto
      qed
    qed
  qed
qed

lemma foldl_apply_one_tracks:
  "tracks doc dt \<Longrightarrow> tracks doc (foldl apply_one dt xs)"
  by (induction xs arbitrary: dt) (simp_all add: apply_one_tracks)

lemma applyTranslations_tracks:
  "tracks doc dt \<Longrightarrow> tracks doc (applyTranslations dt units results)"
  unfolding applyTranslations_def by (rule foldl_apply_one_tracks)

lemma restore_all:
  "distinct (map fst xs) \<Longrightarrow>
     foldl restore_one d xs n =
       (case map_of xs n of
          None \<Rightarrow> d n
        | Some orig \<Rightarrow> if d n = None then None else Some orig)"
proof (induction xs arbitrary: d)
  case Nil
  then show ?case by simp
next
  case (Cons x xs)
  obtain m orig where x: "x = (m, orig)"
    by (cases x)
  from Cons.prems x have fresh: "map_of xs m = None" and rest: "distinct (map fst xs)"
    by (simp_all add: map_of_eq_None_iff)
  have "foldl restore_one d (x # xs) n = foldl restore_one (restore_one d x) xs n"
    by simp
  also have "\<dots> = (case map_of xs n of
          None \<Rightarrow> restore_one d x n
        | Some orig \<Rightarrow> if restore_one d x n = None then None else Some orig)"
    by (rule Cons.IH[OF rest])
  also have "\<dots> = (case map_of (x # xs) n of
          None \<Rightarrow> d n
        | Some orig \<Rightarrow> if d n = None then None else Some orig)"
    using fresh unfolding x
    by (cases "n = m") (auto simp: restore_one_def split: option.splits)
  finally show ?case .
qed

lemma restoreOriginal_tracks:
  assumes "tracks doc dt"
  shows "restoreOriginal dt = \<lparr>document = doc, originals = []\<rparr>"
proof -
  from assms have d: "distinct (map fst (originals dt))"
    and held: "\<And>n orig. (n, orig) \<in> set (originals dt) \<Longrightarrow>
                   doc n = Some orig \<and> document dt n \<noteq> None"
    and other: "\<And>n. n \<notin> fst ` set (originals dt) \<Longrightarrow> document dt n = doc n"
    unfolding tracks_def by blast+
  have "foldl restore_one (document dt) (originals dt) n = doc n" for n
  proof (cases "map_of (originals dt) n")
    case None
    then have "n \<notin> fst ` set (originals dt)"
      by (simp add: map_of_eq_None_iff)
    with None other show ?thesis
      by (simp add: restore_all[OF d])
  next
    case (Some orig)
    then have "(n, orig) \<in> set (originals dt)"
      by (rule map_of_SomeD)
    from held[OF this] Some show ?thesis
      by (auto simp: restore_all[OF d])
  qed
  then show ?thesis
    by (simp add: restoreOriginal_def fun_eq_iff)
qed

lemma tracks_initial: "tracks doc \<lparr>document = doc, originals = []\<rparr>"
  by (simp add: tracks_def)

lemma translateNodesParallel_tracks:
  assumes "tracks doc (domTranslator s)"
  shows "tracks doc (domTranslator (translateNodesParallel textNodes s))"
proof (cases rule: translateNodesParallel_cases[of s textNodes])
  case skipped
  with assms show ?thesis by simp
next
  case (cached dt c)
  from cached(5) assms have "tracks doc dt"
    by (auto simp: applyTranslations_tracks)
  with cached(3) show ?thesis by simp
next
  case (requested dt c u)
  from requested(6) assms have "tracks doc dt"
    by (auto simp: applyTranslations_tracks)
  then show ?thesis
    unfolding requested(4) by (simp add: window_loop_frame)
qed

lemma settle_tracks:
  assumes "tracks doc (domTranslator s)"
  shows "tracks doc (domTranslator (settle i j outcome s))"
proof (cases "i < length (invocations s) \<and> j < length (inv_window (invocations s ! i))")
  case False
  from settle_noop[OF False] assms show ?thesis by simp
next
  case True
  then have i: "i < length (invocations s)" and j: "j < length (inv_window (invocations s ! i))"
    by blast+
  show ?thesis
  proof (cases outcome)
    case Rejected
    from assms show ?thesis
      unfolding Rejected settle_rejected[OF i j]
      by (simp add: finally_block_frame call_settled_frame)
  next
    case (Resolved response)
    define s2 where
      "s2 = translateBatch_resume (inv_window (invocations s ! i) ! j) response (call_settled i j s)"
    from translateBatch_resume_domTranslator
           [of "inv_window (invocations s ! i) ! j" response "call_settled i j s"] assms
    have "tracks doc (domTranslator s2)"
      unfolding s2_def by (auto simp: call_settled_frame applyTranslations_tracks)
    then show ?thesis
      unfolding Resolved settle_resolved[OF i j] s2_def[symmetric]
      by (simp add: window_loop_frame)
  qed
qed

lemma step_tracks:
  assumes "tracks doc (domTranslator s)"
  shows "tracks doc (domTranslator (step s e))"
proof (cases e)
  case (Enable body' window)
  have "tracks doc (domTranslator (s\<lparr>isEnabled := True\<rparr>))"
    using assms by simp
  from this translateNodesParallel_tracks[OF this] assms enable_cases[of body' window s] Enable
  show ?thesis by auto
next
  case Disable
  from assms restoreOriginal_tracks[OF assms] show ?thesis
    unfolding Disable by (simp add: disable_def tracks_initial)
next
  case (Flush nodesToProcess)
  from assms have "tracks doc (domTranslator (flush nodesToProcess s))"
    by (rule flush_induct[where P = "\<lambda>s. tracks doc (domTranslator s)"])
       (rule translateNodesParallel_tracks)
  with Flush show ?thesis by simp
next
  case (Settle i j outcome)
  with assms settle_tracks show ?thesis by simp
next
  case (SettingsChanged src tgt)
  with assms show ?thesis by simp
next
  case (Tick ms)
  with assms show ?thesis by simp
qed

lemma run_tracks: "tracks doc (domTranslator s) \<Longrightarrow> tracks doc (domTranslator (run s events))"
  unfolding run_def by (induction events arbitrary: s) (simp_all add: step_tracks)

lemma initial_tracks: "tracks doc (domTranslator (initial st doc))"
  by (simp add: initial_def tracks_initial)

subsection \<open>The answer to \<^verbatim>\<open>GET_STATUS\<close>\<close>

text \<open>
  C9 (amended). The content script answers \<^verbatim>\<open>GET_STATUS\<close> with the state of the page: in
  every state it reaches, \<^verbatim>\<open>isTranslated\<close> says whether at least one unit shows a
  translation, \<^verbatim>\<open>count\<close> is the number of such units, and \<^verbatim>\<open>autoTranslate\<close> is the enabled
  flag; a unit that shows a translation is in the document, and every other unit shows
  the text it had at the start. The service worker answers \<^verbatim>\<open>GET_STATUS\<close> with the stored
  \<^verbatim>\<open>autoTranslate\<close> setting, \<^verbatim>\<open>isTranslated: false\<close> and \<^verbatim>\<open>count: 0\<close>.
\<close>

theorem getStatus_reports:
  "(let s = run (initial st doc) events; status = content_getStatus s
    in (isTranslated status \<longleftrightarrow> translated_units s \<noteq> {})
       \<and> count status = card (translated_units s)
       \<and> autoTranslate status = isEnabled s
       \<and> (\<forall>n \<in> translated_units s. document (domTranslator s) n \<noteq> None \<and> doc n \<noteq> None)
       \<and> (\<forall>n. n \<notin> translated_units s \<longrightarrow> document (domTranslator s) n = doc n))
   \<and> worker_getStatus stored
       = \<lparr>isTranslated = False, count = 0, autoTranslate = settings_autoTranslate stored\<rparr>"
proof -
  define s where "s = run (initial st doc) events"
  have "tracks doc (domTranslator s)"
    unfolding s_def by (rule run_tracks) (rule initial_tracks)
  then have d: "distinct (map fst (originals (domTranslator s)))"
    and held: "\<And>n orig. (n, orig) \<in> set (originals (domTranslator s)) \<Longrightarrow>
                   doc n = Some orig \<and> document (domTranslator s) n \<noteq> None"
    and other: "\<And>n. n \<notin> fst ` set (originals (domTranslator s)) \<Longrightarrow>
                   document (domTranslator s) n = doc n"
    unfolding tracks_def by blast+
  have units: "translated_units s = set (map fst (originals (domTranslator s)))"
    by (simp add: translated_units_def)
  have "isTranslated (content_getStatus s) \<longleftrightarrow> translated_units s \<noteq> {}"
    by (simp add: content_getStatus_def getStatus_def translated_units_def Let_def)
  moreover have "count (content_getStatus s) = card (translated_units s)"
    unfolding units distinct_card[OF d]
    by (simp add: content_getStatus_def getStatus_def Let_def)
  moreover have "autoTranslate (content_getStatus s) = isEnabled s"
    by (simp add: content_getStatus_def Let_def)
  moreover have "\<forall>n \<in> translated_units s. document (domTranslator s) n \<noteq> None \<and> doc n \<noteq> None"
    using held by (auto simp: translated_units_def)
  moreover have "\<forall>n. n \<notin> translated_units s \<longrightarrow> document (domTranslator s) n = doc n"
    using other by (simp add: translated_units_def)
  moreover have "worker_getStatus stored
       = \<lparr>isTranslated = False, count = 0, autoTranslate = settings_autoTranslate stored\<rparr>"
    by (simp add: worker_getStatus_def)
  ultimately show ?thesis
    unfolding Let_def s_def by blast
qed

theorem getStatus_reports_witness:
  "1 \<in> translated_units
         (run example_script [Enable example_page example_window, Settle 0 0 example_response])
   \<and> 2 \<notin> translated_units
         (run example_script [Enable example_page example_window, Settle 0 0 example_response])
   \<and> isTranslated (content_getStatus
         (run example_script [Enable example_page example_window, Settle 0 0 example_response]))
   \<and> count (content_getStatus
         (run example_script [Enable example_page example_window, Settle 0 0 example_response]))
       = 1
   \<and> autoTranslate (content_getStatus
         (run example_script [Enable example_page example_window, Settle 0 0 example_response]))
   \<and> document (domTranslator
         (run example_script [Enable example_page example_window, Settle 0 0 example_response])) 1
       \<noteq> None
   \<and> document (domTranslator
         (run example_script [Enable example_page example_window, Settle 0 0 example_response])) 2
       = None"
proof -
  let ?s = "run example_script [Enable example_page example_window, Settle 0 0 example_response]"
  let ?doc = "Map.empty(1 \<mapsto> [0x48, 0x65, 0x6C, 0x6C, 0x6F :: 16 word])"
  note reports = getStatus_reports
      [where st = "\<lparr>sourceLang = En, targetLang = Ko\<rparr>" and doc = ?doc
         and events = "[Enable example_page example_window, Settle 0 0 example_response]",
       folded example_script_def, unfolded Let_def, THEN conjunct1]
  have units: "translated_units ?s = {1}"
    by code_simp
  have enabled: "isEnabled ?s"
    by code_simp
  from units have one: "1 \<in> translated_units ?s" and two: "2 \<notin> translated_units ?s"
    by simp_all
  from reports units have "isTranslated (content_getStatus ?s)"
    by simp
  moreover from reports units have "count (content_getStatus ?s) = 1"
    by simp
  moreover from reports enabled have "autoTranslate (content_getStatus ?s)"
    by simp
  moreover from reports[THEN conjunct2, THEN conjunct2, THEN conjunct2, THEN conjunct1,
      rule_format, OF one]
  have "document (domTranslator ?s) 1 \<noteq> None"
    by (rule conjunct1)
  moreover from reports[THEN conjunct2, THEN conjunct2, THEN conjunct2, THEN conjunct2,
      rule_format, OF two]
  have "document (domTranslator ?s) 2 = None"
    by simp
  ultimately show ?thesis
    using one two by (intro conjI)
qed

text \<open>
  C9 as stated, for every \<^verbatim>\<open>GET_STATUS\<close> request, fails for the request that the service
  worker answers: unit 1 shows its translation, and the answer is \<^verbatim>\<open>isTranslated: false\<close>,
  \<^verbatim>\<open>count: 0\<close>.
\<close>

theorem worker_status_ignores_page:
  "document (domTranslator
      (run example_script [Enable example_page example_window, Settle 0 0 example_response])) 1
     = Some [0xC548, 0xB155]
   \<and> translated_units
        (run example_script [Enable example_page example_window, Settle 0 0 example_response])
       = {1}
   \<and> \<not> isTranslated
         (worker_getStatus \<lparr>sourceLang = En, targetLang = Ko, settings_autoTranslate = True\<rparr>)
   \<and> count (worker_getStatus \<lparr>sourceLang = En, targetLang = Ko, settings_autoTranslate = True\<rparr>)
       = 0"
  by code_simp

end
